theory Spec2Isabelle
  imports Main "HOL-Library.Sublist" "HOL-Library.AList"
begin

section \<open>Python strings\<close>

text \<open>
  A Python \<open>str\<close> is modelled as an Isabelle \<open>string\<close>; a character stands for the code
  point of the same number, so the model covers the code points U+0000 to U+00FF. On this
  range \<open>str.lower\<close> and \<open>str.isalnum\<close> are the functions below (Unicode character
  database: the upper-case letters are A-Z, U+00C0-U+00D6 and U+00D8-U+00DE, each 32 below
  its lower-case form; the alphanumeric characters are the digits, the ASCII letters and
  the Latin-1 letters, superscript digits and fractions listed in \<open>isalnum\<close>).
\<close>

definition lower_char :: "char \<Rightarrow> char" where
  "lower_char c =
     (let n = (of_char c :: nat)
      in if (65 \<le> n \<and> n \<le> 90) \<or> (192 \<le> n \<and> n \<le> 214) \<or> (216 \<le> n \<and> n \<le> 222)
         then char_of (n + 32) else c)"

definition lower :: "string \<Rightarrow> string" where
  "lower s = map lower_char s"

definition isalnum :: "char \<Rightarrow> bool" where
  "isalnum c =
     (let n = (of_char c :: nat)
      in (48 \<le> n \<and> n \<le> 57) \<or> (65 \<le> n \<and> n \<le> 90) \<or> (97 \<le> n \<and> n \<le> 122)
         \<or> n = 170 \<or> (178 \<le> n \<and> n \<le> 179) \<or> n = 181 \<or> (185 \<le> n \<and> n \<le> 186)
         \<or> (188 \<le> n \<and> n \<le> 190) \<or> (192 \<le> n \<and> n \<le> 214) \<or> (216 \<le> n \<and> n \<le> 246)
         \<or> (248 \<le> n \<and> n \<le> 255))"

text \<open>The character class \<open>[A-Za-z0-9_-]\<close> of the specification.\<close>

definition ascii_word_char :: "char \<Rightarrow> bool" where
  "ascii_word_char c =
     (let n = (of_char c :: nat)
      in (48 \<le> n \<and> n \<le> 57) \<or> (65 \<le> n \<and> n \<le> 90) \<or> (97 \<le> n \<and> n \<le> 122)
         \<or> c = CHR ''_'' \<or> c = CHR ''-'')"

text \<open>\<open>sub in s\<close>: \<open>sub\<close> occurs in \<open>s\<close> as a contiguous block.\<close>

fun str_in :: "string \<Rightarrow> string \<Rightarrow> bool" where
  "str_in sub [] = (sub = [])"
| "str_in sub (c # cs) = (prefix sub (c # cs) \<or> str_in sub cs)"

text \<open>
  \<open>s.replace(old, new)\<close>: the occurrences of \<open>old\<close> are found from the left and do not
  overlap. For an empty \<open>old\<close> Python puts \<open>new\<close> before every character and at the end.
\<close>

function replace :: "string \<Rightarrow> string \<Rightarrow> string \<Rightarrow> string" where
  "replace old new [] = (if old = [] then new else [])"
| "replace old new (c # cs) =
     (if old = [] then new @ c # replace old new cs
      else if prefix old (c # cs) then new @ replace old new (drop (length old) (c # cs))
      else c # replace old new cs)"
  by pat_completeness auto
termination
  by (relation "measure (\<lambda>(old, new, s). length s)") (auto simp: Suc_le_eq)

text \<open>\<open>str(n)\<close> for a non-negative integer, and \<open>s.zfill(w)\<close>.\<close>

definition digit_char :: "nat \<Rightarrow> char" where
  "digit_char d = ''0123456789'' ! d"

function str_nat :: "nat \<Rightarrow> string" where
  "str_nat n = (if n < 10 then [digit_char n] else str_nat (n div 10) @ [digit_char (n mod 10)])"
  by pat_completeness auto
termination
  by (relation "measure id") auto

definition zfill :: "nat \<Rightarrow> string \<Rightarrow> string" where
  "zfill w s = replicate (w - length s) CHR ''0'' @ s"

section \<open>Paths\<close>

text \<open>\<open>s.rfind(c)\<close>, with \<open>None\<close> for Python's \<open>-1\<close>.\<close>

fun rfind :: "char \<Rightarrow> string \<Rightarrow> nat option" where
  "rfind c [] = None"
| "rfind c (x # xs) =
     (case rfind c xs of
        Some i \<Rightarrow> Some (Suc i)
      | None \<Rightarrow> if x = c then Some 0 else None)"

text \<open>
  \<open>Path.suffix\<close> and \<open>Path.stem\<close> of a file name (pathlib): the part from the last dot, when
  that dot is neither the first nor the last character of the name.
\<close>

definition path_suffix :: "string \<Rightarrow> string" where
  "path_suffix name =
     (case rfind CHR ''.'' name of
        None \<Rightarrow> []
      | Some i \<Rightarrow> if 0 < i \<and> i < length name - 1 then drop i name else [])"

definition path_stem :: "string \<Rightarrow> string" where
  "path_stem name =
     (case rfind CHR ''.'' name of
        None \<Rightarrow> name
      | Some i \<Rightarrow> if 0 < i \<and> i < length name - 1 then take i name else name)"

text \<open>\<open>str(folder / name)\<close>.\<close>

definition path_join :: "string \<Rightarrow> string \<Rightarrow> string" where
  "path_join folder name = folder @ ''/'' @ name"

section \<open>Clock readings\<close>

text \<open>
  A value of \<open>datetime.now()\<close>: the broken-down local time, and the same instant as a POSIX
  time stamp in microseconds (what \<open>st_mtime\<close> is compared with). The year is printed with
  four digits, as it is for the years 1000 to 9999.
\<close>

record datetime =
  dt_year :: nat
  dt_month :: nat
  dt_day :: nat
  dt_hour :: nat
  dt_minute :: nat
  dt_second :: nat
  dt_microsecond :: nat
  dt_posix :: int

definition d2 :: "nat \<Rightarrow> string" where
  "d2 n = zfill 2 (str_nat n)"

definition d4 :: "nat \<Rightarrow> string" where
  "d4 n = zfill 4 (str_nat n)"

text \<open>\<open>strftime('%Y-%m-%d')\<close>\<close>

definition strftime_date :: "datetime \<Rightarrow> string" where
  "strftime_date t = d4 (dt_year t) @ ''-'' @ d2 (dt_month t) @ ''-'' @ d2 (dt_day t)"

text \<open>\<open>strftime('%Y-%m-%d_%H-%M-%S')\<close>\<close>

definition strftime_file :: "datetime \<Rightarrow> string" where
  "strftime_file t =
     strftime_date t @ ''_'' @ d2 (dt_hour t) @ ''-'' @ d2 (dt_minute t) @ ''-'' @ d2 (dt_second t)"

text \<open>\<open>strftime('%Y-%m-%d %H:%M:%S')\<close>\<close>

definition strftime_sync :: "datetime \<Rightarrow> string" where
  "strftime_sync t =
     strftime_date t @ '' '' @ d2 (dt_hour t) @ '':'' @ d2 (dt_minute t) @ '':'' @ d2 (dt_second t)"

text \<open>\<open>strftime('%Y%m%d_%H%M%S')\<close>\<close>

definition strftime_plan :: "datetime \<Rightarrow> string" where
  "strftime_plan t =
     d4 (dt_year t) @ d2 (dt_month t) @ d2 (dt_day t) @ ''_''
       @ d2 (dt_hour t) @ d2 (dt_minute t) @ d2 (dt_second t)"

text \<open>\<open>isoformat()\<close>: the microseconds are printed only when they are not zero.\<close>

definition isoformat :: "datetime \<Rightarrow> string" where
  "isoformat t =
     strftime_date t @ ''T'' @ d2 (dt_hour t) @ '':'' @ d2 (dt_minute t) @ '':'' @ d2 (dt_second t)
       @ (if dt_microsecond t = 0 then [] else ''.'' @ zfill 6 (str_nat (dt_microsecond t)))"

section \<open>base_watcher.py\<close>

text \<open>
  \<open>BaseWatcher._generate_filename\<close>: the identifier keeps its alphanumeric characters and
  \<open>-\<close> and \<open>_\<close>; every other character becomes \<open>_\<close>.
\<close>

definition sanitize_char :: "char \<Rightarrow> char" where
  "sanitize_char c = (if isalnum c \<or> c \<in> set ''-_'' then c else CHR ''_'')"

definition safe_id :: "string \<Rightarrow> string" where
  "safe_id identifier = map sanitize_char identifier"

definition generate_filename :: "datetime \<Rightarrow> string \<Rightarrow> string \<Rightarrow> string" where
  "generate_filename now pfx identifier =
     pfx @ ''_'' @ safe_id identifier @ ''_'' @ strftime_file now @ ''.md''"

section \<open>filesystem_watcher.py: priority\<close>

text \<open>\<open>FileSystemWatcher.priority_keywords\<close>, in the order of the dictionary.\<close>

definition priority_keywords :: "(string \<times> string list) list" where
  "priority_keywords =
     [(''high'', [''urgent'', ''asap'', ''emergency'', ''important'', ''priority'']),
      (''medium'', [''invoice'', ''payment'', ''deadline'', ''review'']),
      (''low'', [''note'', ''reference'', ''info'', ''FYI''])]"

definition keywords_of :: "string \<Rightarrow> string list" where
  "keywords_of tier = (case map_of priority_keywords tier of Some ks \<Rightarrow> ks | None \<Rightarrow> [])"

text \<open>
  \<open>FileSystemWatcher._detect_priority\<close>: the text is the file name, one space and the
  content, in lower case; the two loops return at the first keyword found.
\<close>

definition detect_priority :: "string \<Rightarrow> string \<Rightarrow> string" where
  "detect_priority filename content =
     (let text = lower (filename @ '' '' @ content)
      in if list_ex (\<lambda>keyword. str_in keyword text) (keywords_of ''high'') then ''high''
         else if list_ex (\<lambda>keyword. str_in keyword text) (keywords_of ''medium'') then ''medium''
         else ''low'')"

text \<open>
  The classification in the words of the specification: a case-insensitive substring match
  of a text against the ordered tiers, the first tier with a match wins, no match gives
  \<open>low\<close>.
\<close>

definition ci_match :: "string \<Rightarrow> string \<Rightarrow> bool" where
  "ci_match keyword text = str_in (lower keyword) (lower text)"

definition first_matching_tier :: "string \<Rightarrow> string" where
  "first_matching_tier text =
     (case find (\<lambda>(tier, ks). list_ex (\<lambda>k. ci_match k text) ks) priority_keywords of
        Some (tier, ks) \<Rightarrow> tier
      | None \<Rightarrow> ''low'')"

section \<open>Files and folders\<close>

text \<open>
  A directory entry: whether it is a regular file, its bytes, whether it can be opened
  for reading and for writing, and its modification time (POSIX, microseconds). A folder
  lists its entries by name in the order of \<open>iterdir()\<close>; the names of a folder are
  distinct. The bytes of a file are a string, one character for each byte.
\<close>

record entry =
  f_is_file :: bool
  f_data :: string
  f_readable :: bool
  f_writable :: bool
  f_mtime :: int

type_synonym folder = "(string \<times> entry) list"

text \<open>
  Reading in text mode, as \<open>Path.read_text\<close> and \<open>open(path, 'r')\<close> do on a POSIX system: a
  carriage return followed by a line feed, and a carriage return alone, are read as one
  line feed. Writing in text mode puts the characters into the file as they are. A byte
  is read as the character of the same number and written back as that byte, which is
  what the encodings of the locale do on ASCII text.
\<close>

fun universal_newlines :: "string \<Rightarrow> string" where
  "universal_newlines [] = []"
| "universal_newlines [c] = [if c = CHR 0x0D then CHR 0x0A else c]"
| "universal_newlines (c # d # cs) =
     (if c = CHR 0x0D \<and> d = CHR 0x0A then CHR 0x0A # universal_newlines cs
      else if c = CHR 0x0D then CHR 0x0A # universal_newlines (d # cs)
      else c # universal_newlines (d # cs))"

definition read_text :: "entry \<Rightarrow> string" where
  "read_text f = universal_newlines (f_data f)"

datatype level = INFO | WARNING | ERROR

type_synonym log_record = "level \<times> string"

text \<open>
  What a state file holds: the JSON object \<open>{key: [...], 'last_updated': stamp}\<close> that the
  two \<open>_save_state\<close> methods dump (\<open>key\<close> is \<open>processed_ids\<close> or \<open>processed_files\<close>), the JSON
  object that \<open>_save_file_hashes\<close> dumps, whose keys are the paths of the mapping, or a
  text that is not a JSON object. \<open>last_updated\<close> is the value of the key \<open>last_updated\<close>
  of the object, if it has this key.
\<close>

datatype state_doc =
  Ids string "string set" string
  | Hashes "string \<rightharpoonup> string"
  | OtherContent string

fun last_updated :: "state_doc \<Rightarrow> string option" where
  "last_updated (Ids key ids stamp) = Some stamp"
| "last_updated (Hashes m) = m ''last_updated''"
| "last_updated (OtherContent raw) = None"

text \<open>
  The directory \<open>scripts\<close> of the vault with the three state files (\<open>None\<close>: no such file)
  and, for each file, whether its mode allows writing. No constructor of the watchers or
  of the orchestrator creates this directory, nor does any of the save methods.
\<close>

record scripts_dir =
  sd_exists :: bool
  sd_writable :: bool
  hashes_json :: "state_doc option"
  hashes_json_writable :: bool
  watcher_state_json :: "state_doc option"
  watcher_state_json_writable :: bool
  orchestrator_state_json :: "state_doc option"
  orchestrator_state_json_writable :: bool

text \<open>
  \<open>open(scripts / name, 'w')\<close> succeeds: the directory is there and either the file is there
  and its mode allows writing, or the file is not there and the directory allows a new
  entry.
\<close>

definition open_for_writing :: "scripts_dir \<Rightarrow> state_doc option \<Rightarrow> bool \<Rightarrow> bool" where
  "open_for_writing d stored file_writable =
     (sd_exists d \<and> (case stored of None \<Rightarrow> sd_writable d | Some doc \<Rightarrow> file_writable))"

section \<open>filesystem_watcher.py: the change detector\<close>

text \<open>
  The library functions the detector calls are parameters: the MD5 digest of a byte
  string in hexadecimal, and the text that \<open>read_text(errors='ignore')\<close> gives for the
  bytes of a file.
\<close>

record lib =
  md5_hexdigest :: "string \<Rightarrow> string"
  decode :: "string \<Rightarrow> string"

record watcher =
  file_hashes :: "string \<rightharpoonup> string"
  processed_ids :: "string set"
  w_logger :: "log_record list"
  drop_path :: string
  drop_folder :: folder
  w_scripts :: scripts_dir

record file_info =
  file_path :: string
  file_name :: string
  file_size :: nat
  file_type :: string
  hash :: string
  priority :: string
  content_preview :: string

definition w_log :: "level \<Rightarrow> string \<Rightarrow> watcher \<Rightarrow> watcher" where
  "w_log l msg w = w\<lparr>w_logger := w_logger w @ [(l, msg)]\<rparr>"

text \<open>\<open>FileSystemWatcher._save_file_hashes\<close>: the mapping alone is written.\<close>

definition save_file_hashes :: "watcher \<Rightarrow> watcher" where
  "save_file_hashes w =
     (if open_for_writing (w_scripts w) (hashes_json (w_scripts w))
           (hashes_json_writable (w_scripts w))
      then w\<lparr>w_scripts := (w_scripts w)\<lparr>hashes_json := Some (Hashes (file_hashes w)),
                                          hashes_json_writable := True\<rparr>\<rparr>
      else w_log ERROR ''Could not save file hashes'' w)"

text \<open>\<open>BaseWatcher._save_state\<close>\<close>

definition watcher_save_state :: "datetime \<Rightarrow> watcher \<Rightarrow> watcher" where
  "watcher_save_state now w =
     (if open_for_writing (w_scripts w) (watcher_state_json (w_scripts w))
           (watcher_state_json_writable (w_scripts w))
      then w\<lparr>w_scripts :=
               (w_scripts w)\<lparr>watcher_state_json :=
                                Some (Ids ''processed_ids'' (processed_ids w) (isoformat now)),
                              watcher_state_json_writable := True\<rparr>\<rparr>
      else w_log ERROR ''Could not save state'' w)"

text \<open>\<open>FileSystemWatcher._calculate_hash\<close>: the empty string when the file cannot be read.\<close>

definition calculate_hash :: "lib \<Rightarrow> string \<Rightarrow> entry \<Rightarrow> watcher \<Rightarrow> string \<times> watcher" where
  "calculate_hash L path f w =
     (if f_readable f then (md5_hexdigest L (f_data f), w)
      else ([], w_log ERROR (''Error calculating hash for '' @ path) w))"

definition text_suffixes :: "string list" where
  "text_suffixes = [''.txt'', ''.md'', ''.json'', ''.csv'', ''.log'']"

text \<open>The first 1000 characters of a text file; empty for other files and on a read error.\<close>

definition read_content :: "lib \<Rightarrow> string \<Rightarrow> entry \<Rightarrow> watcher \<Rightarrow> string \<times> watcher" where
  "read_content L name f w =
     (if path_suffix name \<in> set text_suffixes
      then (if f_readable f then (take 1000 (decode L (f_data f)), w)
            else ([], w_log WARNING ''Could not read file content'' w))
      else ([], w))"

definition skipped_name :: "string \<Rightarrow> bool" where
  "skipped_name name = (prefix ''.'' name \<or> path_suffix name = ''.tmp'')"

text \<open>
  The body of \<open>if stored_hash != current_hash\<close>: the item that is appended to
  \<open>new_files\<close>, and the watcher with the hash recorded.
\<close>

definition detect :: "lib \<Rightarrow> string \<Rightarrow> entry \<Rightarrow> string \<Rightarrow> watcher \<Rightarrow> file_info \<times> watcher" where
  "detect L name f current_hash w =
     (let path = path_join (drop_path w) name;
          w1 = w_log INFO (''New/modified file detected: '' @ name) w;
          (content, w2) = read_content L name f w1;
          item = \<lparr>file_path = path, file_name = name, file_size = length (f_data f),
                  file_type = path_suffix name, hash = current_hash,
                  priority = detect_priority name content,
                  content_preview = take 200 content\<rparr>
      in (item, w2\<lparr>file_hashes := (file_hashes w2)(path \<mapsto> current_hash)\<rparr>))"

text \<open>The loop of \<open>check_for_updates\<close> over the regular files of the drop folder.\<close>

fun scan :: "lib \<Rightarrow> (string \<times> entry) list \<Rightarrow> watcher \<Rightarrow> file_info list \<times> watcher" where
  "scan L [] w = ([], w)"
| "scan L ((name, f) # rest) w =
     (if skipped_name name then scan L rest w
      else
        let path = path_join (drop_path w) name;
            (current_hash, w1) = calculate_hash L path f w
        in if current_hash = [] then scan L rest w1
           else if file_hashes w1 path \<noteq> Some current_hash
           then
             let (item, w2) = detect L name f current_hash w1;
                 (items, w3) = scan L rest w2
             in (item # items, w3)
           else scan L rest w1)"

text \<open>\<open>FileSystemWatcher.check_for_updates\<close>\<close>

definition check_for_updates :: "lib \<Rightarrow> watcher \<Rightarrow> file_info list \<times> watcher" where
  "check_for_updates L w =
     (let files = filter (\<lambda>(name, f). f_is_file f) (drop_folder w);
          (new_files, w') = scan L files w
      in (new_files, save_file_hashes w'))"

text \<open>
  Notions for stating what the detector does: the value \<open>_calculate_hash\<close> returns for a
  file; the test that makes the loop report an entry; a folder whose files have new
  modification times and nothing else changed; a later listing of a folder in which
  every entry was there before, of the same kind, with the same bytes and as readable.
\<close>

definition current_hash :: "lib \<Rightarrow> entry \<Rightarrow> string" where
  "current_hash L f = (if f_readable f then md5_hexdigest L (f_data f) else [])"

definition changed :: "lib \<Rightarrow> watcher \<Rightarrow> string \<times> entry \<Rightarrow> bool" where
  "changed L w p =
     (\<not> skipped_name (fst p) \<and> current_hash L (snd p) \<noteq> []
      \<and> file_hashes w (path_join (drop_path w) (fst p)) \<noteq> Some (current_hash L (snd p)))"

definition touch :: "(string \<Rightarrow> int) \<Rightarrow> folder \<Rightarrow> folder" where
  "touch m fld = map (\<lambda>(name, f). (name, f\<lparr>f_mtime := m name\<rparr>)) fld"

definition same_bytes :: "folder \<Rightarrow> folder \<Rightarrow> bool" where
  "same_bytes before after =
     list_all (\<lambda>(n, f'). list_ex (\<lambda>(n0, f). n0 = n \<and> f_is_file f = f_is_file f'
                 \<and> f_readable f = f_readable f' \<and> f_data f = f_data f') before) after"

section \<open>orchestrator.py\<close>

text \<open>
  JSON values, and a daily log file as \<open>_log_action\<close> finds it: absent, holding a value
  that \<open>json.load\<close> returns, or a file, given by its text, that cannot be opened for
  reading or on which \<open>json.load\<close> raises.
\<close>

datatype json =
  JNull | JBool bool | JNum int | JStr string | JList "json list" | JDict "(string \<times> json) list"

datatype log_file = Absent | Loaded json | Unloadable string

text \<open>The outcome of the \<open>which\<close> call that looks for the external tool.\<close>

datatype which_result = Found | NotFound | CheckRaised

text \<open>
  The orchestrator object with the vault it works on. \<open>dir_writable\<close> tells for the name
  of a vault folder whether entries can be created in it and removed from it, and
  \<open>logs_writable\<close> for the name of a daily log file that exists whether its mode allows
  writing. \<open>done_nested\<close> lists, for the names \<open>n\<close> that are directories of the done folder,
  the entries \<open>Done/n/n\<close>. \<open>utc_offset\<close> is the time zone of the process: the difference of
  local time and UTC at a POSIX time, in microseconds.
\<close>

record orchestrator =
  running :: bool
  processed_files :: "string set"
  o_logger :: "log_record list"
  vault_path :: string
  inbox_folder :: folder
  needs_action_folder :: folder
  plans_folder :: folder
  approved_folder :: folder
  rejected_folder :: folder
  done_folder :: folder
  done_nested :: folder
  dashboard_file :: "entry option"
  daily_logs :: "string \<Rightarrow> log_file"
  logs_writable :: "string \<Rightarrow> bool"
  dir_writable :: "string \<Rightarrow> bool"
  utc_offset :: "int \<Rightarrow> int"
  o_scripts :: scripts_dir

text \<open>
  What one cycle reads from outside the vault: the clock (one reading stands for the
  calls of \<open>datetime.now()\<close> of the cycle) and, for every action file, the outcome of the
  search for the external tool.
\<close>

record env =
  now :: datetime
  which_claude :: "string \<Rightarrow> which_result"

definition o_log :: "level \<Rightarrow> string \<Rightarrow> orchestrator \<Rightarrow> orchestrator" where
  "o_log l msg s = s\<lparr>o_logger := o_logger s @ [(l, msg)]\<rparr>"

text \<open>\<open>Orchestrator._save_state\<close>\<close>

definition save_state :: "datetime \<Rightarrow> orchestrator \<Rightarrow> orchestrator" where
  "save_state t s =
     (if open_for_writing (o_scripts s) (orchestrator_state_json (o_scripts s))
           (orchestrator_state_json_writable (o_scripts s))
      then s\<lparr>o_scripts :=
               (o_scripts s)\<lparr>orchestrator_state_json :=
                                Some (Ids ''processed_files'' (processed_files s) (isoformat t)),
                              orchestrator_state_json_writable := True\<rparr>\<rparr>
      else o_log ERROR ''Could not save state'' s)"

text \<open>\<open>Orchestrator._count_files_in_folder\<close>: the regular files with the suffix \<open>.md\<close>.\<close>

definition is_md_file :: "string \<times> entry \<Rightarrow> bool" where
  "is_md_file p = (path_suffix (fst p) = ''.md'' \<and> f_is_file (snd p))"

definition count_files_in_folder :: "folder \<Rightarrow> nat" where
  "count_files_in_folder fld = length (filter is_md_file fld)"

definition get_today_completed_count :: "datetime \<Rightarrow> orchestrator \<Rightarrow> nat" where
  "get_today_completed_count t s =
     length (filter (\<lambda>(name, f). path_suffix name = ''.md'' \<and> str_in (strftime_date t) name)
               (done_folder s))"

text \<open>
  \<open>Orchestrator._get_week_completed_count\<close> compares local times without a zone: the
  reading \<open>datetime.fromtimestamp(mtime)\<close> with the reading \<open>datetime.now()\<close> less seven
  days. \<open>local_time\<close> is such a reading, in microseconds.
\<close>

definition local_time :: "orchestrator \<Rightarrow> int \<Rightarrow> int" where
  "local_time s posix = posix + utc_offset s posix"

definition get_week_completed_count :: "datetime \<Rightarrow> orchestrator \<Rightarrow> nat" where
  "get_week_completed_count t s =
     (let week_ago = local_time s (dt_posix t) - 7 * 86400 * 1000000
      in length (filter (\<lambda>(name, f). path_suffix name = ''.md''
                           \<and> local_time s (f_mtime f) \<ge> week_ago)
                  (done_folder s)))"

text \<open>
  The two status texts. Their marker holds characters above U+00FF, which are written
  here as their UTF-8 bytes.
\<close>

definition status_running :: string where
  "status_running =
     [CHR 0xF0, CHR 0xC5, CHR 0xB8, CHR 0xC5, CHR 0xB8, CHR 0xA2] @ '' Running''"

definition status_stopped :: string where
  "status_stopped =
     [CHR 0xF0, CHR 0xC5, CHR 0xB8, CHR 0xE2, CHR 0x80, CHR 0x9D, CHR 0xB4] @ '' Stopped''"

text \<open>The dictionary \<open>replacements\<close> of \<open>update_dashboard\<close>, in its order.\<close>

definition replacements :: "datetime \<Rightarrow> orchestrator \<Rightarrow> (string \<times> string) list" where
  "replacements t s =
     (let inbox_count = count_files_in_folder (inbox_folder s);
          needs_action_count = count_files_in_folder (needs_action_folder s);
          pending_approval_count = count_files_in_folder (approved_folder s);
          approved_count = count_files_in_folder (approved_folder s);
          active_plans_count = count_files_in_folder (plans_folder s);
          completed_today = get_today_completed_count t s;
          completed_this_week = get_week_completed_count t s
      in [(''{{pending_count}}'', str_nat needs_action_count),
          (''{{active_plans_count}}'', str_nat active_plans_count),
          (''{{completed_today}}'', str_nat completed_today),
          (''{{completed_this_week}}'', str_nat completed_this_week),
          (''{{inbox_count}}'', str_nat inbox_count),
          (''{{needs_action_count}}'', str_nat needs_action_count),
          (''{{pending_approval_count}}'', str_nat pending_approval_count),
          (''{{approved_count}}'', str_nat approved_count),
          (''{{watcher_status}}'', if running s then status_running else status_stopped),
          (''{{orchestrator_status}}'', if running s then status_running else status_stopped),
          (''{{last_sync}}'', strftime_sync t),
          (''{{timestamp}}'', isoformat t)])"

text \<open>The loop \<open>content = content.replace(placeholder, value)\<close>.\<close>

definition substitute :: "(string \<times> string) list \<Rightarrow> string \<Rightarrow> string" where
  "substitute reps content = fold (\<lambda>(placeholder, v) c. replace placeholder v c) reps content"

definition render :: "datetime \<Rightarrow> orchestrator \<Rightarrow> string \<Rightarrow> string" where
  "render t s content = substitute (replacements t s) content"

text \<open>
  \<open>Orchestrator.update_dashboard\<close>. The template is read in text mode. A read or write
  error is caught by the handler of the method, which logs it.
\<close>

definition update_dashboard :: "datetime \<Rightarrow> orchestrator \<Rightarrow> orchestrator" where
  "update_dashboard t s =
     (case dashboard_file s of
        None \<Rightarrow> o_log WARNING ''Dashboard.md not found'' s
      | Some d \<Rightarrow>
          if \<not> (f_is_file d \<and> f_readable d) then o_log ERROR ''Error updating dashboard'' s
          else if \<not> f_writable d then o_log ERROR ''Error updating dashboard'' s
          else s\<lparr>dashboard_file :=
                   Some (d\<lparr>f_data := render t s (read_text d), f_mtime := dt_posix t\<rparr>)\<rparr>)"

text \<open>
  \<open>Orchestrator._log_action\<close>: the file of the day is loaded (an absent file and a file
  that cannot be loaded give the empty list), the entry is appended and the file is
  rewritten. \<open>append\<close> on a loaded value that is not a list raises, as does a failed write;
  the handler of the method logs the error. \<open>open(log_file, 'w')\<close> succeeds on a file that
  is there when its mode allows writing, and on a file that is not there when the folder
  of the logs allows a new entry.
\<close>

definition log_entry :: "datetime \<Rightarrow> string \<Rightarrow> (string \<times> json) list \<Rightarrow> string \<Rightarrow> json" where
  "log_entry t action_type details result =
     JDict [(''timestamp'', JStr (isoformat t)),
            (''action_type'', JStr action_type),
            (''actor'', JStr ''orchestrator''),
            (''parameters'', JDict details),
            (''result'', JStr result)]"

definition log_file_name :: "datetime \<Rightarrow> string" where
  "log_file_name t = strftime_date t @ ''.json''"

definition open_log_for_writing :: "orchestrator \<Rightarrow> string \<Rightarrow> bool" where
  "open_log_for_writing s name =
     (case daily_logs s name of
        Absent \<Rightarrow> dir_writable s ''Logs''
      | Loaded j \<Rightarrow> logs_writable s name
      | Unloadable raw \<Rightarrow> logs_writable s name)"

definition log_action ::
  "datetime \<Rightarrow> string \<Rightarrow> (string \<times> json) list \<Rightarrow> string \<Rightarrow> orchestrator \<Rightarrow> orchestrator" where
  "log_action t action_type details result s =
     (let logs = (case daily_logs s (log_file_name t) of
                    Absent \<Rightarrow> JList []
                  | Unloadable raw \<Rightarrow> JList []
                  | Loaded j \<Rightarrow> j)
      in case logs of
           JList entries \<Rightarrow>
             if open_log_for_writing s (log_file_name t)
             then s\<lparr>daily_logs := (daily_logs s)
                     (log_file_name t :=
                        Loaded (JList (entries @ [log_entry t action_type details result]))),
                    logs_writable := (logs_writable s)(log_file_name t := True)\<rparr>
             else o_log ERROR ''Error logging action'' s
         | _ \<Rightarrow> o_log ERROR ''Error logging action'' s)"

text \<open>\<open>get_pending_files\<close> and \<open>get_approved_files\<close>: the names, oldest first.\<close>

definition md_files_by_mtime :: "folder \<Rightarrow> string list" where
  "md_files_by_mtime fld = map fst (sort_key (\<lambda>p. f_mtime (snd p)) (filter is_md_file fld))"

definition get_pending_files :: "orchestrator \<Rightarrow> string list" where
  "get_pending_files s = md_files_by_mtime (needs_action_folder s)"

definition get_approved_files :: "orchestrator \<Rightarrow> string list" where
  "get_approved_files s = md_files_by_mtime (approved_folder s)"

definition action_path :: "orchestrator \<Rightarrow> string \<Rightarrow> string" where
  "action_path s name = path_join (path_join (vault_path s) ''Needs_Action'') name"

definition approved_path :: "orchestrator \<Rightarrow> string \<Rightarrow> string" where
  "approved_path s name = path_join (path_join (vault_path s) ''Approved'') name"

text \<open>
  \<open>Path.write_text\<close> into a folder: an existing regular file is overwritten when it is
  writable, a new one is created when the folder allows it; otherwise the call raises
  (\<open>None\<close>).
\<close>

definition write_text :: "bool \<Rightarrow> int \<Rightarrow> string \<Rightarrow> string \<Rightarrow> folder \<Rightarrow> folder option" where
  "write_text dir_ok t name data fld =
     (case map_of fld name of
        Some f \<Rightarrow>
          if f_is_file f \<and> f_writable f
          then Some (AList.update name (f\<lparr>f_data := data, f_mtime := t\<rparr>) fld)
          else None
      | None \<Rightarrow>
          if dir_ok
          then Some (AList.update name
                 \<lparr>f_is_file = True, f_data = data, f_readable = True, f_writable = True,
                  f_mtime = t\<rparr> fld)
          else None)"

definition nl :: string where
  "nl = [CHR 0x0A]"

definition plan_file_name :: "datetime \<Rightarrow> string \<Rightarrow> string" where
  "plan_file_name t name = ''PLAN_'' @ path_stem name @ ''_'' @ strftime_plan t @ ''.md''"

definition plan_content :: "datetime \<Rightarrow> string \<Rightarrow> string" where
  "plan_content t name =
     concat (map (\<lambda>line. line @ nl)
       [''---'',
        ''created: '' @ isoformat t,
        ''status: in_progress'',
        ''source_file: '' @ name,
        ''---'',
        [],
        ''# Plan for Processing: '' @ name,
        [],
        ''## Objective'',
        ''Process the action file and complete the required task.'',
        [],
        ''## Steps'',
        ''- [x] Read action file'',
        ''- [ ] Analyze requirements'',
        ''- [ ] Execute required actions'',
        ''- [ ] Update Dashboard'',
        ''- [ ] Move to /Done when complete'',
        [],
        ''## Notes'',
        ''*Plan created by Orchestrator (Bronze Tier - Claude simulation)*''])"

text \<open>The handler \<open>except Exception as e\<close> of \<open>process_with_claude\<close>; \<open>msg\<close> stands for \<open>str(e)\<close>.\<close>

definition process_failed :: "datetime \<Rightarrow> string \<Rightarrow> string \<Rightarrow> orchestrator \<Rightarrow> bool \<times> orchestrator" where
  "process_failed t name msg s =
     (False,
      log_action t ''claude_process'' [(''file'', JStr (action_path s name)), (''error'', JStr msg)]
        ''error'' (o_log ERROR ''Error processing with Claude'' s))"

text \<open>
  \<open>Orchestrator.process_with_claude\<close> on the action file \<open>name\<close> of the landing folder.
  When the search for the tool itself raises, the method goes on as if the tool were there.
  The second half of the method, from \<open>action_file.read_text()\<close> on, is \<open>update_status\<close>; the
  action file is read in text mode, and it is written only when its text holds the
  pending status.
\<close>

definition process_succeeded :: "datetime \<Rightarrow> string \<Rightarrow> orchestrator \<Rightarrow> bool \<times> orchestrator" where
  "process_succeeded t name s =
     (True,
      log_action t ''claude_process''
        [(''file'', JStr (action_path s name)),
         (''plan'', JStr (path_join (path_join (vault_path s) ''Plans'') (plan_file_name t name)))]
        ''success'' s)"

definition update_status :: "datetime \<Rightarrow> string \<Rightarrow> orchestrator \<Rightarrow> bool \<times> orchestrator" where
  "update_status t name s =
     (case map_of (needs_action_folder s) name of
        None \<Rightarrow> process_failed t name ''cannot read the action file'' s
      | Some f \<Rightarrow>
          (if \<not> (f_is_file f \<and> f_readable f)
           then process_failed t name ''cannot read the action file'' s
           else if str_in ''status: pending'' (read_text f)
           then (case write_text (dir_writable s ''Needs_Action'') (dt_posix t) name
                        (replace ''status: pending'' ''status: in_progress'' (read_text f))
                        (needs_action_folder s) of
                   None \<Rightarrow> process_failed t name ''cannot write the action file'' s
                 | Some landing \<Rightarrow> process_succeeded t name (s\<lparr>needs_action_folder := landing\<rparr>))
           else process_succeeded t name s))"

definition process_with_claude :: "env \<Rightarrow> string \<Rightarrow> orchestrator \<Rightarrow> bool \<times> orchestrator" where
  "process_with_claude E name s =
     (let t = now E;
          s1 = o_log INFO (''Processing with Claude: '' @ name) s
      in (if which_claude E name = NotFound
          then (False,
                log_action t ''claude_process'' [(''file'', JStr (action_path s name))]
                  ''skipped_claude_not_found''
                  (o_log WARNING ''Claude command not found. Skipping processing.'' s1))
          else (let s2 = o_log INFO (''[SIMULATED] Claude would process: '' @ name) s1
                in (case write_text (dir_writable s2 ''Plans'') (dt_posix t) (plan_file_name t name)
                           (plan_content t name) (plans_folder s2) of
                      None \<Rightarrow> process_failed t name ''cannot write the plan file'' s2
                    | Some plans \<Rightarrow> update_status t name (s2\<lparr>plans_folder := plans\<rparr>)))))"

text \<open>
  \<open>shutil.move(src, dst)\<close> for the entry \<open>f\<close> at \<open>src = Approved/name\<close> and
  \<open>dst = Done/name\<close>, with the state it leaves and whether it returns (\<open>True\<close>) or raises.
  When \<open>dst\<close> is a directory the target is \<open>Done/name/name\<close>, and the call raises at once
  when that exists. \<open>os.rename\<close> needs both directories to accept the change; it replaces a
  regular file at the target. When \<open>os.rename\<close> raises, the entry is copied to the target
  with its metadata (the source must be readable; a file at the target must be writable, a
  new one needs the directory to accept it) and then the source is unlinked, which the
  approved folder must accept: when it does not, the call raises after the copy has been
  made. For an entry that is a directory, \<open>f_writable\<close> tells whether it accepts new
  entries. \<open>run\<close> passes regular files only.
\<close>

definition place_in_done :: "bool \<Rightarrow> string \<Rightarrow> entry \<Rightarrow> orchestrator \<Rightarrow> orchestrator" where
  "place_in_done nested name f s =
     (if nested then s\<lparr>done_nested := AList.update name f (done_nested s)\<rparr>
      else s\<lparr>done_folder := AList.update name f (done_folder s)\<rparr>)"

definition remove_source :: "string \<Rightarrow> orchestrator \<Rightarrow> orchestrator" where
  "remove_source name s = s\<lparr>approved_folder := AList.delete name (approved_folder s)\<rparr>"

definition shutil_move :: "string \<Rightarrow> entry \<Rightarrow> orchestrator \<Rightarrow> bool \<times> orchestrator" where
  "shutil_move name f s =
     (let dst = map_of (done_folder s) name;
          nested = (case dst of Some d \<Rightarrow> \<not> f_is_file d | None \<Rightarrow> False);
          real_dst = (if nested then map_of (done_nested s) name else dst);
          dst_dir_ok = (case dst of
                          Some d \<Rightarrow> if f_is_file d then dir_writable s ''Done'' else f_writable d
                        | None \<Rightarrow> dir_writable s ''Done'');
          rename_ok = (dir_writable s ''Approved'' \<and> dst_dir_ok
                       \<and> (real_dst = None \<or> f_is_file f));
          copy_ok = (f_readable f
                     \<and> (case real_dst of
                           None \<Rightarrow> dst_dir_ok
                         | Some d \<Rightarrow> f_is_file f \<and> f_writable d))
      in if nested \<and> real_dst \<noteq> None then (False, s)
         else if rename_ok then (True, remove_source name (place_in_done nested name f s))
         else if copy_ok
         then (if dir_writable s ''Approved''
               then (True, remove_source name (place_in_done nested name f s))
               else (False, place_in_done nested name f s))
         else (False, s))"

text \<open>
  \<open>Orchestrator.move_to_done\<close>. A missing source makes \<open>shutil.move\<close> raise; the handler of
  the method logs every error.
\<close>

definition move_to_done :: "datetime \<Rightarrow> string \<Rightarrow> orchestrator \<Rightarrow> orchestrator" where
  "move_to_done t name s =
     (case map_of (approved_folder s) name of
        None \<Rightarrow> o_log ERROR ''Error moving file to Done'' s
      | Some f \<Rightarrow>
          (let (returned, s') = shutil_move name f s
           in if returned
              then log_action t ''move_to_done'' [(''file'', JStr (approved_path s name))]
                     ''success'' (o_log INFO (''Moved to Done: '' @ name) s')
              else o_log ERROR ''Error moving file to Done'' s'))"

text \<open>The loop of \<open>run\<close> over the pending files.\<close>

fun process_pending :: "env \<Rightarrow> string list \<Rightarrow> orchestrator \<Rightarrow> orchestrator" where
  "process_pending E [] s = s"
| "process_pending E (name # rest) s =
     (if action_path s name \<in> processed_files s then process_pending E rest s
      else
        let (success, s') = process_with_claude E name s
        in process_pending E rest
             (if success
              then s'\<lparr>processed_files := insert (action_path s name) (processed_files s')\<rparr>
              else s'))"

text \<open>One pass of the loop of \<open>Orchestrator.run\<close>, without the sleep.\<close>

definition cycle :: "env \<Rightarrow> orchestrator \<Rightarrow> orchestrator" where
  "cycle E s =
     (let s1 = update_dashboard (now E) s;
          pending_files = get_pending_files s1;
          s2 = (if pending_files \<noteq> []
                then process_pending E pending_files
                       (o_log INFO (''Found '' @ str_nat (length pending_files) @ '' pending file(s)'') s1)
                else s1);
          approved_files = get_approved_files s2;
          s3 = (if approved_files \<noteq> []
                then fold (move_to_done (now E)) approved_files
                       (o_log INFO (''Found '' @ str_nat (length approved_files)
                                      @ '' approved file(s) ready for action'') s2)
                else s2)
      in save_state (now E) s3)"

section \<open>Concrete instances\<close>

text \<open>
  Values on which the theorems below are instantiated. The digest of \<open>sample_lib\<close> is a
  stand-in that puts a tag before the bytes.
\<close>

definition sample_lib :: lib where
  "sample_lib = \<lparr>md5_hexdigest = (\<lambda>bytes. ''md5:'' @ bytes), decode = (\<lambda>bytes. bytes)\<rparr>"

definition regular :: "string \<Rightarrow> int \<Rightarrow> entry" where
  "regular bytes t =
     \<lparr>f_is_file = True, f_data = bytes, f_readable = True, f_writable = True, f_mtime = t\<rparr>"

definition no_scripts :: scripts_dir where
  "no_scripts =
     \<lparr>sd_exists = False, sd_writable = True,
      hashes_json = None, hashes_json_writable = True,
      watcher_state_json = None, watcher_state_json_writable = True,
      orchestrator_state_json = None, orchestrator_state_json_writable = True\<rparr>"

definition empty_scripts :: scripts_dir where
  "empty_scripts = no_scripts\<lparr>sd_exists := True\<rparr>"

definition sample_watcher :: watcher where
  "sample_watcher =
     \<lparr>file_hashes = [''/drop/old.txt'' \<mapsto> ''md5:same''],
      processed_ids = {},
      w_logger = [],
      drop_path = ''/drop'',
      drop_folder = [(''new.txt'', regular ''please review ASAP'' 10),
                     (''old.txt'', regular ''same'' 20),
                     (''.hidden'', regular ''x'' 30),
                     (''part.tmp'', regular ''y'' 40)],
      w_scripts = no_scripts\<rparr>"

definition sample_time :: datetime where
  "sample_time =
     \<lparr>dt_year = 2026, dt_month = 1, dt_day = 7, dt_hour = 9, dt_minute = 5, dt_second = 3,
      dt_microsecond = 0, dt_posix = 1767776703000000\<rparr>"

definition sample_vault :: orchestrator where
  "sample_vault =
     \<lparr>running = True,
      processed_files = {},
      o_logger = [],
      vault_path = ''/vault'',
      inbox_folder = [],
      needs_action_folder =
        [(''FILE_a.md'', regular ''status: pending'' 10),
         (''FILE_b.md'', regular ''status: pending'' 20),
         (''FILE_c.md'', regular ''status: pending'' 30)],
      plans_folder = [],
      approved_folder = [(''FILE_d.md'', regular ''status: in_progress'' 5)],
      rejected_folder = [],
      done_folder = [],
      done_nested = [],
      dashboard_file = Some (regular ''Pending: {{pending_count}}'' 0),
      daily_logs = (\<lambda>name. Absent),
      logs_writable = (\<lambda>name. True),
      dir_writable = (\<lambda>name. True),
      utc_offset = (\<lambda>posix. 0),
      o_scripts = no_scripts\<rparr>"

definition sample_env :: env where
  "sample_env = \<lparr>now = sample_time, which_claude = (\<lambda>name. Found)\<rparr>"

section \<open>Notions for the workflow\<close>

text \<open>
  The folders that hold action records, and the folders in which a name occurs. In
  \<open>one_place\<close> vaults no name occurs twice, neither in one of these folders nor in two of
  them. A state is reachable from another one by cycles of the orchestrator.
\<close>

datatype place = InLanding | InApproved | InRejected | InDone

definition location :: "orchestrator \<Rightarrow> string \<Rightarrow> place list" where
  "location s name =
     (if name \<in> fst ` set (needs_action_folder s) then [InLanding] else [])
       @ (if name \<in> fst ` set (approved_folder s) then [InApproved] else [])
       @ (if name \<in> fst ` set (rejected_folder s) then [InRejected] else [])
       @ (if name \<in> fst ` set (done_folder s) then [InDone] else [])"

definition one_place :: "orchestrator \<Rightarrow> bool" where
  "one_place s =
     distinct (map fst (needs_action_folder s @ approved_folder s @ rejected_folder s
                          @ done_folder s))"

inductive reachable :: "orchestrator \<Rightarrow> orchestrator \<Rightarrow> bool" where
  start: "reachable s s"
| step: "reachable s0 s \<Longrightarrow> reachable s0 (cycle E s)"

text \<open>
  What a successful processing step does to the action file, and the conditions under
  which \<open>process_with_claude\<close> returns \<open>True\<close>: the tool is not reported missing, the plan
  file can be written, and the action file can be read and, where its status is to be
  changed, written.
\<close>

definition mark_in_progress :: "datetime \<Rightarrow> entry \<Rightarrow> entry" where
  "mark_in_progress t f =
     (if str_in ''status: pending'' (read_text f)
      then f\<lparr>f_data := replace ''status: pending'' ''status: in_progress'' (read_text f),
             f_mtime := dt_posix t\<rparr>
      else f)"

definition can_process :: "env \<Rightarrow> string \<Rightarrow> orchestrator \<Rightarrow> bool" where
  "can_process E name s =
     (which_claude E name \<noteq> NotFound
      \<and> write_text (dir_writable s ''Plans'') (dt_posix (now E)) (plan_file_name (now E) name)
            (plan_content (now E) name) (plans_folder s) \<noteq> None
      \<and> (case map_of (needs_action_folder s) name of
            None \<Rightarrow> False
          | Some f \<Rightarrow> f_is_file f \<and> f_readable f
                       \<and> (str_in ''status: pending'' (read_text f) \<longrightarrow> f_writable f)))"

text \<open>
  Parts of these conditions by themselves: both folders of a move accept the change; the
  action file can be read and, where needed, written; the plan file can be written. And
  the state in which the loop over the pending files leaves an action file it has
  handled.
\<close>

definition movable :: "orchestrator \<Rightarrow> bool" where
  "movable s = (dir_writable s ''Approved'' \<and> dir_writable s ''Done'')"

definition readable_action :: "orchestrator \<Rightarrow> string \<Rightarrow> bool" where
  "readable_action s n =
     (case map_of (needs_action_folder s) n of
        None \<Rightarrow> False
      | Some f \<Rightarrow> f_is_file f \<and> f_readable f
                   \<and> (str_in ''status: pending'' (read_text f) \<longrightarrow> f_writable f))"

definition plan_writable :: "env \<Rightarrow> string \<Rightarrow> orchestrator \<Rightarrow> bool" where
  "plan_writable E n s =
     (write_text (dir_writable s ''Plans'') (dt_posix (now E)) (plan_file_name (now E) n)
        (plan_content (now E) n) (plans_folder s) \<noteq> None)"

definition handled :: "env \<Rightarrow> string \<Rightarrow> orchestrator \<Rightarrow> orchestrator" where
  "handled E n s =
     (if can_process E n s
      then (snd (process_with_claude E n s))
             \<lparr>processed_files := insert (action_path s n) (processed_files s)\<rparr>
      else snd (process_with_claude E n s))"

section \<open>Notions for the dashboard\<close>

text \<open>
  Substitution in one pass from the left: where a placeholder of the list begins, its
  value is put and the pass goes on behind the placeholder; every other character is
  copied.
\<close>

function subst_once :: "(string \<times> string) list \<Rightarrow> string \<Rightarrow> string" where
  "subst_once reps [] = []"
| "subst_once reps (c # cs) =
     (case find (\<lambda>r. fst r \<noteq> [] \<and> prefix (fst r) (c # cs)) reps of
        Some r \<Rightarrow> snd r @ subst_once reps (drop (length (fst r)) (c # cs))
      | None \<Rightarrow> c # subst_once reps cs)"
  by pat_completeness auto
termination
  by (relation "measure (\<lambda>(reps, s). length s)") (auto simp: find_Some_iff Suc_le_eq)

text \<open>
  The shape of the placeholders (two opening braces and no further one, all characters
  among braces, underscore and small letters) and of the values that replace them (not
  empty, beginning outside these characters, without an opening brace).
\<close>

definition name_chars :: "char set" where
  "name_chars = set ''{}_abcdefghijklmnopqrstuvwxyz''"

definition placeholder :: "string \<Rightarrow> bool" where
  "placeholder p =
     (case p of
        a # b # c # rest \<Rightarrow> a = CHR ''{'' \<and> b = CHR ''{'' \<and> CHR ''{'' \<notin> set (c # rest)
                           \<and> set p \<subseteq> name_chars
      | _ \<Rightarrow> False)"

definition placeholder_named :: "string \<Rightarrow> string" where
  "placeholder_named name = ''{{'' @ name @ ''}}''"

definition good :: "(string \<times> string) list \<Rightarrow> bool" where
  "good reps =
     (\<forall>r \<in> set reps. placeholder (fst r) \<and> snd r \<noteq> [] \<and> hd (snd r) \<notin> name_chars
                        \<and> CHR ''{'' \<notin> set (snd r))"

definition clean :: "string \<Rightarrow> bool" where
  "clean v = (v \<noteq> [] \<and> hd v \<notin> name_chars \<and> CHR ''{'' \<notin> set v)"

section \<open>File names of action records\<close>

lemma sanitize_char_alt:
  "sanitize_char c =
     (if ascii_word_char c \<or> (isalnum c \<and> 128 \<le> (of_char c :: nat)) then c else CHR ''_'')"
  by (auto simp: sanitize_char_def ascii_word_char_def isalnum_def Let_def)

lemma sanitize_char_class:
  "ascii_word_char (sanitize_char c)
     \<or> (isalnum (sanitize_char c) \<and> 128 \<le> (of_char (sanitize_char c) :: nat))"
  unfolding sanitize_char_alt by (simp add: ascii_word_char_def)

text \<open>
  C9, as stated, fails: the identifier \<open>caf\<close> followed by U+00E9 (a letter for
  \<open>str.isalnum\<close>) is kept as it is, and its last character is outside \<open>[A-Za-z0-9_-]\<close>.
\<close>

theorem safe_id_keeps_non_ascii_letter:
  "safe_id [CHR ''c'', CHR ''a'', CHR ''f'', CHR 0xE9] = [CHR ''c'', CHR ''a'', CHR ''f'', CHR 0xE9]
     \<and> \<not> list_all ascii_word_char (safe_id [CHR ''c'', CHR ''a'', CHR ''f'', CHR 0xE9])"
  by (simp add: safe_id_def sanitize_char_def isalnum_def ascii_word_char_def)

text \<open>
  C9, amended: the file name is the prefix, \<open>_\<close>, the sanitised identifier, \<open>_\<close>, the time
  stamp and \<open>.md\<close>; sanitising keeps the characters of \<open>[A-Za-z0-9_-]\<close> and the
  alphanumeric characters outside ASCII and maps every other character to \<open>_\<close>, so every
  character of the sanitised identifier is of one of these two kinds.
\<close>

theorem generate_filename_shape:
  "generate_filename t pfx ident = pfx @ ''_'' @ safe_id ident @ ''_'' @ strftime_file t @ ''.md''
     \<and> safe_id ident =
         map (\<lambda>c. if ascii_word_char c \<or> (isalnum c \<and> 128 \<le> (of_char c :: nat)) then c
                  else CHR ''_'') ident
     \<and> list_all (\<lambda>c. ascii_word_char c \<or> (isalnum c \<and> 128 \<le> (of_char c :: nat))) (safe_id ident)"
proof -
  have shape: "generate_filename t pfx ident
                 = pfx @ ''_'' @ safe_id ident @ ''_'' @ strftime_file t @ ''.md''"
    by (simp add: generate_filename_def)
  have chars: "safe_id ident =
         map (\<lambda>c. if ascii_word_char c \<or> (isalnum c \<and> 128 \<le> (of_char c :: nat)) then c
                  else CHR ''_'') ident"
    unfolding safe_id_def by (rule map_cong) (simp_all add: sanitize_char_alt)
  have cls: "list_all (\<lambda>c. ascii_word_char c \<or> (isalnum c \<and> 128 \<le> (of_char c :: nat)))
               (safe_id ident)"
    by (simp add: safe_id_def list_all_iff sanitize_char_class)
  from shape chars cls show ?thesis by blast
qed

section \<open>Priority classification\<close>

text \<open>
  C5, as stated, fails: the text that is searched is the file name, a space and the
  content, so a keyword that begins in the file name and ends in the content is not found.
  For the name \<open>urg\<close> and the content \<open>ent\<close> the code answers \<open>low\<close>; matching the
  tiers against the name concatenated with the content answers \<open>high\<close>.
\<close>

theorem detect_priority_keyword_across_space:
  "detect_priority ''urg'' ''ent'' = ''low'' \<and> first_matching_tier (''urg'' @ ''ent'') = ''high''"
  by (simp add: detect_priority_def first_matching_tier_def ci_match_def keywords_of_def
        priority_keywords_def lower_def lower_char_def)

text \<open>
  C5, amended: the priority is the first of the tiers high, medium, low that has a keyword
  occurring, without regard to case, in the file name followed by one space and the
  content; without a match it is \<open>low\<close>. A file named \<open>urgent_invoice.txt\<close> is \<open>high\<close>
  whatever its content, although the medium keyword \<open>invoice\<close> occurs too.
\<close>

theorem detect_priority_first_tier:
  "detect_priority filename content = first_matching_tier (filename @ '' '' @ content)
     \<and> detect_priority ''urgent_invoice.txt'' content = ''high''
     \<and> ci_match ''invoice'' (''urgent_invoice.txt'' @ '' '' @ content)"
  by (simp add: detect_priority_def first_matching_tier_def ci_match_def keywords_of_def
        priority_keywords_def lower_def lower_char_def)

section \<open>Dashboard counts\<close>

text \<open>
  C10: the values for \<open>{{pending_approval_count}}\<close> and \<open>{{approved_count}}\<close> are both the
  number of \<open>.md\<close> files of the approved folder, and the values for \<open>{{pending_count}}\<close> and
  \<open>{{needs_action_count}}\<close> are both the number of \<open>.md\<close> files of the landing folder.
\<close>

theorem replacements_equal_counts:
  "map_of (replacements t s) ''{{pending_approval_count}}''
       = Some (str_nat (count_files_in_folder (approved_folder s)))
     \<and> map_of (replacements t s) ''{{approved_count}}''
       = Some (str_nat (count_files_in_folder (approved_folder s)))
     \<and> map_of (replacements t s) ''{{pending_count}}''
       = Some (str_nat (count_files_in_folder (needs_action_folder s)))
     \<and> map_of (replacements t s) ''{{needs_action_count}}''
       = Some (str_nat (count_files_in_folder (needs_action_folder s)))"
  by (simp add: replacements_def Let_def)

section \<open>The change detector\<close>

lemma path_join_inj [simp]: "path_join d a = path_join d b \<longleftrightarrow> a = b"
  by (simp add: path_join_def)

lemma calculate_hash_fst [simp]: "fst (calculate_hash L p f w) = current_hash L f"
  by (simp add: calculate_hash_def current_hash_def)

lemma calculate_hash_snd [simp]:
  "file_hashes (snd (calculate_hash L p f w)) = file_hashes w"
  "drop_path (snd (calculate_hash L p f w)) = drop_path w"
  by (simp_all add: calculate_hash_def w_log_def)

lemma calculate_hash_readable: "current_hash L f \<noteq> [] \<Longrightarrow> snd (calculate_hash L p f w) = w"
  by (simp add: calculate_hash_def current_hash_def split: if_splits)

lemma calculate_hash_touch [simp]:
  "calculate_hash L p (f\<lparr>f_mtime := x\<rparr>) w = calculate_hash L p f w"
  by (simp add: calculate_hash_def)

lemma calculate_hash_drop_folder:
  "calculate_hash L p f (w\<lparr>drop_folder := d\<rparr>)
     = (fst (calculate_hash L p f w), (snd (calculate_hash L p f w))\<lparr>drop_folder := d\<rparr>)"
  by (simp add: calculate_hash_def w_log_def)

lemma detect_fst [simp]:
  "file_name (fst (detect L n f h w)) = n"
  "file_path (fst (detect L n f h w)) = path_join (drop_path w) n"
  "hash (fst (detect L n f h w)) = h"
  by (simp_all add: detect_def Let_def split: prod.splits)

lemma detect_snd [simp]:
  "file_hashes (snd (detect L n f h w)) = (file_hashes w)(path_join (drop_path w) n \<mapsto> h)"
  "drop_path (snd (detect L n f h w)) = drop_path w"
  by (simp_all add: detect_def Let_def read_content_def w_log_def split: prod.splits)

lemma read_content_touch [simp]:
  "read_content L n (f\<lparr>f_mtime := x\<rparr>) w = read_content L n f w"
  by (simp add: read_content_def)

lemma detect_touch [simp]: "detect L n (f\<lparr>f_mtime := x\<rparr>) h w = detect L n f h w"
  by (simp add: detect_def)

lemma detect_drop_folder:
  "detect L n f h (w\<lparr>drop_folder := d\<rparr>)
     = (fst (detect L n f h w), (snd (detect L n f h w))\<lparr>drop_folder := d\<rparr>)"
  by (simp add: detect_def Let_def read_content_def w_log_def split: prod.splits)

lemma scan_cons:
  "scan L ((n, f) # r) w =
     (if skipped_name n then scan L r w
      else if current_hash L f = []
      then scan L r (snd (calculate_hash L (path_join (drop_path w) n) f w))
      else if file_hashes w (path_join (drop_path w) n) \<noteq> Some (current_hash L f)
      then (fst (detect L n f (current_hash L f) w)
              # fst (scan L r (snd (detect L n f (current_hash L f) w))),
            snd (scan L r (snd (detect L n f (current_hash L f) w))))
      else scan L r w)"
proof (cases "current_hash L f = []")
  case True
  then show ?thesis
    by (simp add: Let_def split: prod.splits) (metis calculate_hash_fst fst_conv snd_conv)
next
  case False
  then have "calculate_hash L (path_join (drop_path w) n) f w = (current_hash L f, w)"
    by (metis calculate_hash_fst calculate_hash_readable prod.collapse)
  with False show ?thesis by (simp add: Let_def split: prod.splits)
qed

declare scan.simps(2) [simp del]

lemma changed_pair:
  "changed L w (n, f) \<longleftrightarrow>
     \<not> skipped_name n \<and> current_hash L f \<noteq> []
     \<and> file_hashes w (path_join (drop_path w) n) \<noteq> Some (current_hash L f)"
  by (simp add: changed_def)

lemma scan_drop_path [simp]: "drop_path (snd (scan L fs w)) = drop_path w"
proof (induction fs arbitrary: w)
  case Nil show ?case by simp
next
  case (Cons a fs)
  obtain n f where a: "a = (n, f)" by (cases a)
  show ?case unfolding a by (simp add: scan_cons Cons.IH)
qed

lemma scan_paths:
  "list_all (\<lambda>item. file_path item = path_join (drop_path w) (file_name item)) (fst (scan L fs w))"
proof (induction fs arbitrary: w)
  case Nil show ?case by simp
next
  case (Cons a fs)
  obtain n f where a: "a = (n, f)" by (cases a)
  show ?case unfolding a
    using Cons.IH [of w] Cons.IH [of "snd (calculate_hash L (path_join (drop_path w) n) f w)"]
      Cons.IH [of "snd (detect L n f (current_hash L f) w)"]
    by (simp add: scan_cons)
qed

lemma scan_names:
  "distinct (map fst fs) \<Longrightarrow> map file_name (fst (scan L fs w)) = map fst (filter (changed L w) fs)"
proof (induction fs arbitrary: w)
  case Nil show ?case by simp
next
  case (Cons a fs)
  obtain n f where a: "a = (n, f)" by (cases a)
  from Cons.prems a have d: "distinct (map fst fs)" and nin: "n \<notin> fst ` set fs" by auto
  have same: "filter (changed L w') fs = filter (changed L w) fs"
    if "drop_path w' = drop_path w"
      and "\<And>x. x \<noteq> n \<Longrightarrow> file_hashes w' (path_join (drop_path w) x) = file_hashes w (path_join (drop_path w) x)"
    for w'
  proof (rule filter_cong [OF refl])
    fix p assume "p \<in> set fs"
    then have "fst p \<noteq> n" using nin by auto
    then show "changed L w' p = changed L w p" using that by (simp add: changed_def)
  qed
  have s1: "filter (changed L (snd (calculate_hash L (path_join (drop_path w) n) f w))) fs
              = filter (changed L w) fs"
    by (rule same) simp_all
  have s2: "filter (changed L (snd (detect L n f (current_hash L f) w))) fs = filter (changed L w) fs"
    by (rule same) simp_all
  show ?case unfolding a
    by (simp add: scan_cons changed_pair Cons.IH [OF d] s1 s2)
qed

lemma scan_hashes:
  "distinct (map fst fs) \<Longrightarrow>
   file_hashes (snd (scan L fs w)) p =
     (case find (\<lambda>q. path_join (drop_path w) (fst q) = p \<and> changed L w q) fs of
        Some q \<Rightarrow> Some (current_hash L (snd q))
      | None \<Rightarrow> file_hashes w p)"
proof (induction fs arbitrary: w)
  case Nil show ?case by simp
next
  case (Cons a fs)
  obtain n f where a: "a = (n, f)" by (cases a)
  from Cons.prems a have d: "distinct (map fst fs)" and nin: "n \<notin> fst ` set fs" by auto
  have same: "find (\<lambda>q. path_join (drop_path w') (fst q) = p \<and> changed L w' q) fs
               = find (\<lambda>q. path_join (drop_path w) (fst q) = p \<and> changed L w q) fs"
    if "drop_path w' = drop_path w"
      and "\<And>x. x \<noteq> n \<Longrightarrow> file_hashes w' (path_join (drop_path w) x) = file_hashes w (path_join (drop_path w) x)"
    for w'
  proof (rule find_cong [OF refl])
    fix q assume "q \<in> set fs"
    then have "fst q \<noteq> n" using nin by auto
    then show "(path_join (drop_path w') (fst q) = p \<and> changed L w' q)
                 = (path_join (drop_path w) (fst q) = p \<and> changed L w q)"
      using that by (simp add: changed_def)
  qed
  let ?w1 = "snd (calculate_hash L (path_join (drop_path w) n) f w)"
  let ?w2 = "snd (detect L n f (current_hash L f) w)"
  have s1: "find (\<lambda>q. path_join (drop_path ?w1) (fst q) = p \<and> changed L ?w1 q) fs
               = find (\<lambda>q. path_join (drop_path w) (fst q) = p \<and> changed L w q) fs"
    by (rule same) simp_all
  have s2: "find (\<lambda>q. path_join (drop_path ?w2) (fst q) = p \<and> changed L ?w2 q) fs
               = find (\<lambda>q. path_join (drop_path w) (fst q) = p \<and> changed L w q) fs"
    by (rule same) simp_all
  have none: "find (\<lambda>q. path_join (drop_path w) (fst q) = p \<and> changed L w q) fs = None"
    if "path_join (drop_path w) n = p"
    using nin that by (force simp: find_None_iff)
  consider "skipped_name n" | "\<not> skipped_name n" "current_hash L f = []"
    | "\<not> skipped_name n" "current_hash L f \<noteq> []" "file_hashes w (path_join (drop_path w) n) = Some (current_hash L f)"
    | "\<not> skipped_name n" "current_hash L f \<noteq> []" "file_hashes w (path_join (drop_path w) n) \<noteq> Some (current_hash L f)"
    by blast
  then show ?case
  proof cases
    case 1 then show ?thesis unfolding a using Cons.IH [OF d, of w] by (simp add: scan_cons changed_pair)
  next
    case 2 then show ?thesis unfolding a using Cons.IH [OF d, of ?w1] s1
      by (simp add: scan_cons changed_pair split: option.splits)
  next
    case 3 then show ?thesis unfolding a using Cons.IH [OF d, of w] by (simp add: scan_cons changed_pair)
  next
    case 4
    show ?thesis
    proof (cases "path_join (drop_path w) n = p")
      case True
      then show ?thesis unfolding a using 4 Cons.IH [OF d, of ?w2] s2 none [OF True]
        by (simp add: scan_cons changed_pair)
    next
      case False
      then show ?thesis unfolding a using 4 Cons.IH [OF d, of ?w2] s2
        by (simp add: scan_cons changed_pair split: option.splits)
    qed
  qed
qed

lemma rfind_append_last:
  "c \<notin> set ys \<Longrightarrow> rfind c (xs @ c # ys) = Some (length xs)"
proof (induction xs)
  case Nil
  have "rfind c ys = None" using Nil by (induction ys) auto
  then show ?case by simp
next
  case (Cons x xs) then show ?case by simp
qed

lemma path_suffix_drop: "path_suffix name = s \<Longrightarrow> s \<noteq> [] \<Longrightarrow> suffix s name"
  by (auto simp: path_suffix_def suffix_drop split: option.splits if_splits)

lemma path_suffix_tmp:
  assumes "\<not> prefix ''.'' name"
  shows "path_suffix name = ''.tmp'' \<longleftrightarrow> suffix ''.tmp'' name"
proof
  assume "path_suffix name = ''.tmp''"
  then show "suffix ''.tmp'' name" by (rule path_suffix_drop) simp
next
  assume "suffix ''.tmp'' name"
  then obtain x where x: "name = x @ ''.tmp''" by (auto simp: suffix_def)
  with assms have "x \<noteq> []" by auto
  have "rfind CHR ''.'' (x @ CHR ''.'' # ''tmp'') = Some (length x)"
    by (rule rfind_append_last) simp
  then show "path_suffix name = ''.tmp''"
    using x \<open>x \<noteq> []\<close> by (simp add: path_suffix_def)
qed

lemma skipped_name_iff: "skipped_name name \<longleftrightarrow> prefix ''.'' name \<or> suffix ''.tmp'' name"
  using path_suffix_tmp [of name] by (auto simp: skipped_name_def)

lemma distinct_regular: "distinct (map fst fld) \<Longrightarrow> distinct (map fst (filter P fld))"
  by (rule distinct_map_filter)

lemma check_fst: "fst (check_for_updates L w) = fst (scan L (filter (\<lambda>(name, f). f_is_file f) (drop_folder w)) w)"
  by (simp add: check_for_updates_def Let_def split: prod.splits)

lemma save_file_hashes_mem [simp]:
  "file_hashes (save_file_hashes w) = file_hashes w"
  "drop_path (save_file_hashes w) = drop_path w"
  "drop_folder (save_file_hashes w) = drop_folder w"
  by (simp_all add: save_file_hashes_def w_log_def)

lemma check_snd_hashes: "file_hashes (snd (check_for_updates L w)) = file_hashes (snd (scan L (filter (\<lambda>(name, f). f_is_file f) (drop_folder w)) w))"
  "drop_path (snd (check_for_updates L w)) = drop_path w"
  by (simp_all add: check_for_updates_def Let_def split: prod.splits) (metis scan_drop_path snd_conv)

lemma scan_reported:
  assumes "distinct (map fst fs)" "(n, f) \<in> set fs"
  shows "path_join (drop_path w) n \<in> file_path ` set (fst (scan L fs w)) \<longleftrightarrow> changed L w (n, f)"
proof -
  have "path_join (drop_path w) n \<in> file_path ` set (fst (scan L fs w))
        \<longleftrightarrow> n \<in> file_name ` set (fst (scan L fs w))"
    using scan_paths [of w L fs] by (force simp: list_all_iff)
  also have "\<dots> \<longleftrightarrow> n \<in> set (map file_name (fst (scan L fs w)))" by simp
  also have "\<dots> \<longleftrightarrow> n \<in> fst ` set (filter (changed L w) fs)"
    by (simp only: scan_names [OF assms(1)] set_map)
  also have "\<dots> \<longleftrightarrow> changed L w (n, f)"
    using assms by (force dest: eq_key_imp_eq_value)
  finally show ?thesis .
qed

lemma scan_touch: "scan L (touch m fs) w = scan L fs w"
proof (induction fs arbitrary: w)
  case Nil show ?case by (simp add: touch_def)
next
  case (Cons a fs)
  obtain n f where a: "a = (n, f)" by (cases a)
  have t: "touch m ((n, f) # fs) = (n, f\<lparr>f_mtime := m n\<rparr>) # touch m fs" by (simp add: touch_def)
  have h: "current_hash L (f\<lparr>f_mtime := m n\<rparr>) = current_hash L f" by (simp add: current_hash_def)
  show ?case unfolding a t by (simp add: scan_cons h Cons.IH)
qed

lemma filter_touch: "filter (\<lambda>(name, f). f_is_file f) (touch m fld) = touch m (filter (\<lambda>(name, f). f_is_file f) fld)"
  by (induction fld) (auto simp: touch_def)

lemma scan_drop_folder:
  "scan L fs (w\<lparr>drop_folder := d\<rparr>) = (fst (scan L fs w), (snd (scan L fs w))\<lparr>drop_folder := d\<rparr>)"
proof (induction fs arbitrary: w)
  case Nil show ?case by simp
next
  case (Cons a fs)
  obtain n f where a: "a = (n, f)" by (cases a)
  show ?case unfolding a
    by (simp add: scan_cons calculate_hash_drop_folder detect_drop_folder Cons.IH)
qed

lemma check_touch: "fst (check_for_updates L (w\<lparr>drop_folder := touch m (drop_folder w)\<rparr>)) = fst (check_for_updates L w)"
  by (simp add: check_fst filter_touch scan_touch scan_drop_folder)

lemma scan_nothing:
  "\<forall>q \<in> set fs. \<not> changed L w q \<Longrightarrow> fst (scan L fs w) = []"
proof (induction fs arbitrary: w)
  case Nil show ?case by simp
next
  case (Cons a fs)
  obtain n f where a: "a = (n, f)" by (cases a)
  from Cons.prems a have nc: "\<not> changed L w (n, f)" and rest: "\<forall>q \<in> set fs. \<not> changed L w q" by auto
  let ?w1 = "snd (calculate_hash L (path_join (drop_path w) n) f w)"
  have "\<forall>q \<in> set fs. \<not> changed L ?w1 q" using rest by (simp add: changed_def)
  then show ?case unfolding a using nc Cons.IH [OF rest] Cons.IH [of ?w1]
    by (auto simp: scan_cons changed_pair)
qed

lemma scan_records:
  assumes "distinct (map fst fs)" "(n, f) \<in> set fs" "\<not> skipped_name n" "current_hash L f \<noteq> []"
  shows "file_hashes (snd (scan L fs w)) (path_join (drop_path w) n) = Some (current_hash L f)"
proof (cases "find (\<lambda>q. path_join (drop_path w) (fst q) = path_join (drop_path w) n \<and> changed L w q) fs")
  case None
  then have "\<not> changed L w (n, f)" using assms(2) by (force simp: find_None_iff)
  then have "file_hashes w (path_join (drop_path w) n) = Some (current_hash L f)"
    using assms(3,4) by (simp add: changed_pair)
  then show ?thesis using None by (simp add: scan_hashes [OF assms(1)])
next
  case (Some q)
  then have "q \<in> set fs" "fst q = n" by (auto simp: find_Some_iff)
  then have "q = (n, f)" using assms(1,2) by (metis eq_key_imp_eq_value prod.collapse)
  then show ?thesis using Some by (simp add: scan_hashes [OF assms(1)])
qed


text \<open>
  C1: in a drop folder with distinct names, a regular file whose name neither starts with
  a dot nor ends in \<open>.tmp\<close> and whose hash is computed (the value is not empty) is among
  the reported files exactly when no fingerprint is stored for its path or the stored one
  differs from the computed one; and giving the files of the folder other modification
  times changes nothing in what is reported.
\<close>

theorem check_for_updates_reports_changed:
  assumes "distinct (map fst (drop_folder w))"
    and "(name, f) \<in> set (drop_folder w)"
    and "f_is_file f" and "\<not> prefix ''.'' name" and "\<not> suffix ''.tmp'' name"
    and "p = path_join (drop_path w) name"
    and "h = fst (calculate_hash L p f w)" and "h \<noteq> []"
  shows "(p \<in> file_path ` set (fst (check_for_updates L w))
            \<longleftrightarrow> file_hashes w p = None \<or> file_hashes w p \<noteq> Some h)
         \<and> fst (check_for_updates L (w\<lparr>drop_folder := touch m (drop_folder w)\<rparr>))
             = fst (check_for_updates L w)"
proof -
  let ?fs = "filter (\<lambda>(name, f). f_is_file f) (drop_folder w)"
  have d: "distinct (map fst ?fs)" using assms(1) by (rule distinct_regular)
  have m: "(name, f) \<in> set ?fs" using assms(2,3) by simp
  have h: "h = current_hash L f" using assms(7) by simp
  have "p \<in> file_path ` set (fst (check_for_updates L w)) \<longleftrightarrow> changed L w (name, f)"
    unfolding check_fst assms(6) by (rule scan_reported [OF d m])
  also have "\<dots> \<longleftrightarrow> file_hashes w p \<noteq> Some h"
    using assms(4,5,6,8) h by (simp add: changed_pair skipped_name_iff)
  finally show ?thesis by (auto simp: check_touch)
qed


theorem check_for_updates_reports_changed_witness:
  "''/drop/new.txt'' \<in> file_path ` set (fst (check_for_updates sample_lib sample_watcher))
     \<and> file_hashes sample_watcher ''/drop/new.txt'' = None
     \<and> fst (check_for_updates sample_lib
              (sample_watcher\<lparr>drop_folder := touch (\<lambda>name. 99) (drop_folder sample_watcher)\<rparr>))
         = fst (check_for_updates sample_lib sample_watcher)"
  using check_for_updates_reports_changed [of sample_watcher "''new.txt''"
      "regular ''please review ASAP'' 10" "''/drop/new.txt''" "''md5:please review ASAP''"
      sample_lib "\<lambda>name. 99"]
  by (simp add: sample_watcher_def sample_lib_def regular_def path_join_def calculate_hash_def
        suffix_to_prefix)

text \<open>
  C3: after a scan of a drop folder with distinct names, a second scan of a folder in
  which every entry was there at the first scan, of the same kind, as readable and with
  the same bytes, reports nothing.
\<close>

theorem second_scan_detects_nothing:
  assumes "distinct (map fst (drop_folder w))"
    and "same_bytes (drop_folder w) later"
  shows "fst (check_for_updates L ((snd (check_for_updates L w))\<lparr>drop_folder := later\<rparr>)) = []"
proof -
  define w1 where "w1 = snd (check_for_updates L w)"
  let ?reg = "\<lambda>(name :: string, f). f_is_file f"
  let ?fs = "filter ?reg (drop_folder w)"
  let ?w2 = "w1\<lparr>drop_folder := later\<rparr>"
  have d: "distinct (map fst ?fs)" using assms(1) by (rule distinct_regular)
  have w1: "file_hashes w1 = file_hashes (snd (scan L ?fs w))" "drop_path w1 = drop_path w"
    using check_snd_hashes [of L w] by (simp_all add: w1_def)
  have "\<forall>q \<in> set (filter ?reg later). \<not> changed L ?w2 q"
  proof
    fix q assume q: "q \<in> set (filter ?reg later)"
    obtain n f' where nf: "q = (n, f')" by (cases q)
    from q nf assms(2) obtain f where f: "(n, f) \<in> set (drop_folder w)" "f_is_file f"
        "f_readable f = f_readable f'" "f_data f = f_data f'"
      by (fastforce simp: same_bytes_def list_all_iff list_ex_iff)
    then have ch: "current_hash L f' = current_hash L f" by (simp add: current_hash_def)
    show "\<not> changed L ?w2 q"
    proof (cases "\<not> skipped_name n \<and> current_hash L f \<noteq> []")
      case True
      then have "file_hashes (snd (scan L ?fs w)) (path_join (drop_path w) n) = Some (current_hash L f)"
        using scan_records [OF d, of n f L w] f by simp
      then show ?thesis using w1 ch nf by (simp add: changed_pair)
    next
      case False then show ?thesis using ch nf by (auto simp: changed_pair)
    qed
  qed
  then have "fst (scan L (filter ?reg later) ?w2) = []" by (rule scan_nothing)
  then show ?thesis by (simp add: check_fst w1_def)
qed

theorem second_scan_detects_nothing_witness:
  "fst (check_for_updates sample_lib
         ((snd (check_for_updates sample_lib sample_watcher))
            \<lparr>drop_folder := touch (\<lambda>name. 99) (drop_folder sample_watcher)\<rparr>)) = []"
  using second_scan_detects_nothing [of sample_watcher
      "touch (\<lambda>name. 99) (drop_folder sample_watcher)" sample_lib]
  by (simp add: sample_watcher_def same_bytes_def touch_def regular_def)

section \<open>The daily log\<close>

text \<open>
  C6, as stated, fails. When the mode of the file of the day does not allow writing, the
  write raises, the error is swallowed and no entry is added to the list the file holds;
  when the file cannot be loaded, what it holds is replaced by a list that holds the new
  entry only; and when the file holds a JSON value that is not a list (here the empty
  object), \<open>append\<close> raises and no entry is added.
\<close>

theorem log_action_without_append:
  "daily_logs (log_action sample_time ''move_to_done'' [] ''success''
                 (sample_vault\<lparr>daily_logs := (\<lambda>name. Loaded (JList [JStr ''earlier''])),
                                logs_writable := (\<lambda>name. False)\<rparr>))
       (log_file_name sample_time) = Loaded (JList [JStr ''earlier''])
   \<and> daily_logs (log_action sample_time ''move_to_done'' [] ''success''
                 (sample_vault\<lparr>daily_logs := (\<lambda>name. Unloadable ''[1, 2'')\<rparr>))
       (log_file_name sample_time)
       = Loaded (JList [log_entry sample_time ''move_to_done'' [] ''success''])
   \<and> daily_logs (log_action sample_time ''move_to_done'' [] ''success''
                 (sample_vault\<lparr>daily_logs := (\<lambda>name. Loaded (JDict []))\<rparr>))
       (log_file_name sample_time) = Loaded (JDict [])"
  by (simp add: log_action_def open_log_for_writing_def sample_vault_def o_log_def)

text \<open>
  C6, amended: when the file of the day can be opened for writing (a file that is there
  by its mode, a file that is not there by the folder of the logs) and it is absent or
  holds a JSON list, logging an action keeps the entries of that list in their order and
  puts exactly one entry behind them, with the fields \<open>timestamp\<close>, \<open>action_type\<close>,
  \<open>actor\<close>, \<open>parameters\<close> and \<open>result\<close>; a file of the day that cannot be loaded and can be
  written is replaced by the list of the new entry alone; the files of all other days stay
  as they are.
\<close>

theorem log_action_appends:
  assumes "daily_logs s (log_file_name t) = Absent \<and> dir_writable s ''Logs'' \<and> entries = []
           \<or> daily_logs s (log_file_name t) = Loaded (JList entries)
              \<and> logs_writable s (log_file_name t)
           \<or> daily_logs s (log_file_name t) = Unloadable raw
              \<and> logs_writable s (log_file_name t) \<and> entries = []"
  shows "daily_logs (log_action t action_type details result s) (log_file_name t)
           = Loaded (JList (entries @
               [JDict [(''timestamp'', JStr (isoformat t)),
                       (''action_type'', JStr action_type),
                       (''actor'', JStr ''orchestrator''),
                       (''parameters'', JDict details),
                       (''result'', JStr result)]]))
         \<and> (\<forall>name. name \<noteq> log_file_name t \<longrightarrow>
               daily_logs (log_action t action_type details result s) name = daily_logs s name)"
  using assms by (auto simp: log_action_def open_log_for_writing_def log_entry_def)

theorem log_action_appends_witness:
  "daily_logs (log_action sample_time ''move_to_done'' [] ''success''
                 (sample_vault\<lparr>daily_logs := (\<lambda>name. Loaded (JList [JStr ''earlier'']))\<rparr>))
       (log_file_name sample_time)
     = Loaded (JList [JStr ''earlier'',
               JDict [(''timestamp'', JStr (isoformat sample_time)),
                       (''action_type'', JStr ''move_to_done''),
                       (''actor'', JStr ''orchestrator''),
                       (''parameters'', JDict []),
                       (''result'', JStr ''success'')]])"
  using log_action_appends [of "sample_vault\<lparr>daily_logs := (\<lambda>name. Loaded (JList [JStr ''earlier'']))\<rparr>"
      sample_time "[JStr ''earlier'']" "[]" "''move_to_done''" "[]" "''success''"]
  by (simp add: sample_vault_def)

section \<open>Saving state\<close>

text \<open>
  C7, as stated, fails: in a vault without the directory \<open>scripts\<close> the save does not
  create the directory, nothing is written and the error is logged; and where the
  directory is there, the file of the hashes is written as the mapping alone, an object
  without the key \<open>last_updated\<close>.
\<close>

theorem save_without_directory_or_stamp:
  "sd_exists (o_scripts sample_vault) = False
   \<and> o_scripts (save_state sample_time sample_vault) = o_scripts sample_vault
   \<and> o_logger (save_state sample_time sample_vault) = [(ERROR, ''Could not save state'')]
   \<and> hashes_json (w_scripts (save_file_hashes (sample_watcher\<lparr>w_scripts := empty_scripts\<rparr>)))
       = Some (Hashes [''/drop/old.txt'' \<mapsto> ''md5:same''])
   \<and> last_updated (Hashes [''/drop/old.txt'' \<mapsto> ''md5:same'']) = None"
  by (simp add: save_state_def save_file_hashes_def sample_vault_def sample_watcher_def
        no_scripts_def empty_scripts_def open_for_writing_def o_log_def)

text \<open>
  C7, amended: each of the three save operations writes, when its file can be opened for
  writing (the directory \<open>scripts\<close> is there, and the file is there with a mode that allows
  writing or is not there while the directory allows a new entry), its whole in-memory
  collection over what the file held (the processed identifiers with a time stamp for the
  watcher and the orchestrator, the mapping of hashes alone for the file hashes) and
  otherwise leaves the directory as it is and logs one error; it never creates the
  directory, and the in-memory collection is never changed.
\<close>

theorem save_overwrites_or_logs:
  "o_scripts (save_state t s)
      = (if open_for_writing (o_scripts s) (orchestrator_state_json (o_scripts s))
              (orchestrator_state_json_writable (o_scripts s))
         then (o_scripts s)\<lparr>orchestrator_state_json :=
                               Some (Ids ''processed_files'' (processed_files s) (isoformat t)),
                             orchestrator_state_json_writable := True\<rparr>
         else o_scripts s)
   \<and> o_logger (save_state t s)
      = (if open_for_writing (o_scripts s) (orchestrator_state_json (o_scripts s))
              (orchestrator_state_json_writable (o_scripts s))
         then o_logger s
         else o_logger s @ [(ERROR, ''Could not save state'')])
   \<and> processed_files (save_state t s) = processed_files s
   \<and> sd_exists (o_scripts (save_state t s)) = sd_exists (o_scripts s)
   \<and> w_scripts (watcher_save_state t w)
      = (if open_for_writing (w_scripts w) (watcher_state_json (w_scripts w))
              (watcher_state_json_writable (w_scripts w))
         then (w_scripts w)\<lparr>watcher_state_json :=
                               Some (Ids ''processed_ids'' (processed_ids w) (isoformat t)),
                             watcher_state_json_writable := True\<rparr>
         else w_scripts w)
   \<and> w_logger (watcher_save_state t w)
      = (if open_for_writing (w_scripts w) (watcher_state_json (w_scripts w))
              (watcher_state_json_writable (w_scripts w))
         then w_logger w
         else w_logger w @ [(ERROR, ''Could not save state'')])
   \<and> processed_ids (watcher_save_state t w) = processed_ids w
   \<and> sd_exists (w_scripts (watcher_save_state t w)) = sd_exists (w_scripts w)
   \<and> w_scripts (save_file_hashes w)
      = (if open_for_writing (w_scripts w) (hashes_json (w_scripts w))
              (hashes_json_writable (w_scripts w))
         then (w_scripts w)\<lparr>hashes_json := Some (Hashes (file_hashes w)),
                             hashes_json_writable := True\<rparr>
         else w_scripts w)
   \<and> w_logger (save_file_hashes w)
      = (if open_for_writing (w_scripts w) (hashes_json (w_scripts w))
              (hashes_json_writable (w_scripts w))
         then w_logger w
         else w_logger w @ [(ERROR, ''Could not save file hashes'')])
   \<and> file_hashes (save_file_hashes w) = file_hashes w
   \<and> sd_exists (w_scripts (save_file_hashes w)) = sd_exists (w_scripts w)
   \<and> open_for_writing d None file_writable = (sd_exists d \<and> sd_writable d)
   \<and> open_for_writing d (Some doc) file_writable = (sd_exists d \<and> file_writable)
   \<and> last_updated (Ids key ids (isoformat t)) = Some (isoformat t)"
  by (simp add: save_state_def watcher_save_state_def save_file_hashes_def o_log_def w_log_def
        open_for_writing_def)

section \<open>Dashboard rendering\<close>

lemma prefix_str_in: "prefix x s \<Longrightarrow> str_in x s"
  by (cases s) auto

lemma str_in_iff: "str_in x s \<longleftrightarrow> (\<exists>a b. s = a @ x @ b)"
proof (induction s)
  case Nil show ?case by simp
next
  case (Cons c cs)
  show ?case
  proof
    assume "str_in x (c # cs)"
    then consider "prefix x (c # cs)" | "str_in x cs" by auto
    then show "\<exists>a b. c # cs = a @ x @ b"
    proof cases
      case 1 then obtain b where "c # cs = x @ b" by (auto simp: prefix_def)
      then have "c # cs = [] @ x @ b" by simp
      then show ?thesis by blast
    next
      case 2 then obtain a b where "cs = a @ x @ b" using Cons.IH by blast
      then have "c # cs = (c # a) @ x @ b" by simp
      then show ?thesis by blast
    qed
  next
    assume "\<exists>a b. c # cs = a @ x @ b"
    then obtain a b where ab: "c # cs = a @ x @ b" by blast
    show "str_in x (c # cs)"
    proof (cases a)
      case Nil then show ?thesis using ab by (intro prefix_str_in) (simp add: prefix_def)
    next
      case (Cons a0 a') then have "cs = a' @ x @ b" using ab by simp
      then show ?thesis using Cons.IH by auto
    qed
  qed
qed

lemma str_in_append: "str_in x t \<Longrightarrow> str_in x (w @ t)"
  unfolding str_in_iff by (metis append.assoc)

lemma str_in_Cons: "str_in x t \<Longrightarrow> str_in x (c # t)"
  by simp

lemma str_in_prefix: "str_in x (x @ t)"
  unfolding str_in_iff by (metis append_Nil)

lemma replace_absent: "\<not> str_in p s \<Longrightarrow> replace p v s = s"
  by (induction s) auto

lemma replace_skip: "p \<noteq> [] \<Longrightarrow> hd p \<notin> set w \<Longrightarrow> replace p v (w @ t) = w @ replace p v t"
proof (induction w)
  case Nil show ?case by simp
next
  case (Cons x w)
  then have "\<not> prefix p (x # w @ t)" by (cases p) auto
  with Cons show ?case by simp
qed

lemma replace_at: "p \<noteq> [] \<Longrightarrow> replace p v (p @ t) = v @ replace p v t"
  by (cases p) simp_all

lemma placeholder_facts:
  assumes "placeholder p"
  shows "p \<noteq> []" "hd p = CHR ''{''" "set p \<subseteq> name_chars" "2 < length p"
    "p ! 1 = CHR ''{''" "CHR ''{'' \<notin> set (drop 2 p)"
  using assms by (auto simp: placeholder_def split: list.splits)

lemma subst_once_Nil [simp]: "subst_once [] s = s"
  by (induction s) auto

lemma subst_once_None:
  "find (\<lambda>r. fst r \<noteq> [] \<and> prefix (fst r) (c # cs)) reps = None \<Longrightarrow>
   subst_once reps (c # cs) = c # subst_once reps cs"
  by simp

lemma subst_once_Some:
  "find (\<lambda>r. fst r \<noteq> [] \<and> prefix (fst r) (c # cs)) reps = Some r \<Longrightarrow>
   subst_once reps (c # cs) = snd r @ subst_once reps (drop (length (fst r)) (c # cs))"
  by simp

declare subst_once.simps(2) [simp del]

text \<open>A placeholder at the head of the output was at the head of the input.\<close>

lemma prefix_subst_once:
  assumes "\<forall>r \<in> set reps. snd r \<noteq> [] \<and> hd (snd r) \<notin> set p"
  shows "prefix p (subst_once reps s) \<Longrightarrow> prefix p s"
  using assms
proof (induction s arbitrary: p)
  case Nil then show ?case by simp
next
  case (Cons c cs)
  show ?case
  proof (cases p)
    case Nil then show ?thesis by simp
  next
    case (Cons x p')
    show ?thesis
    proof (cases "find (\<lambda>r. fst r \<noteq> [] \<and> prefix (fst r) (c # cs)) reps")
      case None
      then have "prefix p (c # subst_once reps cs)" using Cons.prems(1) by (simp add: subst_once_None)
      then have x: "x = c" and p': "prefix p' (subst_once reps cs)" using Cons by auto
      have "\<forall>r \<in> set reps. snd r \<noteq> [] \<and> hd (snd r) \<notin> set p'"
        using Cons.prems(2) Cons by auto
      from Cons.IH [OF p' this] x Cons show ?thesis by simp
    next
      case (Some r)
      then have r: "r \<in> set reps" by (auto simp: find_Some_iff)
      then obtain y w where w: "snd r = y # w" "y \<notin> set p"
        using Cons.prems(2) by (cases "snd r") auto
      from Some Cons.prems(1) have "prefix p (snd r @ subst_once reps (drop (length (fst r)) (c # cs)))"
        by (simp add: subst_once_Some)
      with w Cons have "x = y" by simp
      with w Cons show ?thesis by simp
    qed
  qed
qed

text \<open>No placeholder begins inside a placeholder.\<close>

lemma no_placeholder_inside:
  assumes "placeholder p" "placeholder q" "0 < i" "i < length p"
  shows "\<not> prefix q (drop i p @ t)"
proof
  assume pre: "prefix q (drop i p @ t)"
  obtain a b c rest where p: "p = a # b # c # rest" "CHR ''{'' \<notin> set (c # rest)"
    using assms(1) by (auto simp: placeholder_def split: list.splits)
  obtain a' b' c' rest' where q: "q = CHR ''{'' # CHR ''{'' # c' # rest'"
    using assms(2) by (auto simp: placeholder_def split: list.splits)
  show False
  proof (cases "i = 1")
    case True
    then have "drop i p @ t = b # c # rest @ t" using p by simp
    with pre q have "c = CHR ''{''" by auto
    with p show False by simp
  next
    case False
    then obtain j where j: "i = Suc (Suc j)" using assms(3) by (cases i; cases "i - 1") auto
    then have d: "drop i p = drop j (c # rest)" using p by simp
    have "j < length (c # rest)" using assms(4) j p by simp
    then obtain y ys where y: "drop j (c # rest) = y # ys" "y \<in> set (c # rest)"
      by (metis Cons_nth_drop_Suc nth_mem)
    with pre q d have "y = CHR ''{''" by auto
    with y p show False by simp
  qed
qed

lemma subst_once_copy:
  assumes "\<forall>i < length u. find (\<lambda>r. fst r \<noteq> [] \<and> prefix (fst r) (drop i u @ t)) reps = None"
  shows "subst_once reps (u @ t) = u @ subst_once reps t"
  using assms
proof (induction u)
  case Nil show ?case by simp
next
  case (Cons x u)
  have 0: "find (\<lambda>r. fst r \<noteq> [] \<and> prefix (fst r) (x # u @ t)) reps = None"
    using Cons.prems by force
  have "\<forall>i < length u. find (\<lambda>r. fst r \<noteq> [] \<and> prefix (fst r) (drop i u @ t)) reps = None"
  proof (intro allI impI)
    fix i assume "i < length u"
    then have "Suc i < length (x # u)" by simp
    from Cons.prems [rule_format, OF this] show "find (\<lambda>r. fst r \<noteq> [] \<and> prefix (fst r) (drop i u @ t)) reps = None"
      by simp
  qed
  from Cons.IH [OF this] 0 show ?case by (simp add: subst_once_None)
qed

lemma subst_once_over_placeholder:
  assumes "placeholder p" "\<forall>r \<in> set reps. placeholder (fst r)"
    and "find (\<lambda>r. fst r \<noteq> [] \<and> prefix (fst r) (p @ t)) reps = None"
  shows "subst_once reps (p @ t) = p @ subst_once reps t"
proof (rule subst_once_copy, intro allI impI)
  fix i assume i: "i < length p"
  show "find (\<lambda>r. fst r \<noteq> [] \<and> prefix (fst r) (drop i p @ t)) reps = None"
  proof (cases "i = 0")
    case True then show ?thesis using assms(3) by simp
  next
    case False
    then have "\<forall>r \<in> set reps. \<not> prefix (fst r) (drop i p @ t)"
      using no_placeholder_inside [OF assms(1) _ _ i] assms(2) by auto
    then show ?thesis by (auto simp: find_None_iff)
  qed
qed

lemma find_append_None:
  "find P xs = None \<Longrightarrow> find P (xs @ ys) = find P ys"
  by (induction xs) (auto split: if_splits)

lemma find_append_Some:
  "find P xs = Some x \<Longrightarrow> find P (xs @ ys) = Some x"
  by (induction xs) (auto split: if_splits)

lemma replace_subst_once:
  assumes "placeholder p" and "good reps"
  shows "replace p v (subst_once reps s) = subst_once (reps @ [(p, v)]) s"
proof (induction s rule: length_induct)
  case (1 s)
  note p = placeholder_facts [OF assms(1)]
  show ?case
  proof (cases s)
    case Nil then show ?thesis using p by simp
  next
    case (Cons c cs)
    let ?P = "\<lambda>r. fst r \<noteq> [] \<and> prefix (fst r) (c # cs)"
    show ?thesis
    proof (cases "find ?P reps")
      case (Some r)
      then have r: "r \<in> set reps" "fst r \<noteq> []" by (auto simp: find_Some_iff)
      then have "hd p \<notin> set (snd r)" using assms(2) p by (auto simp: good_def)
      then have "replace p v (subst_once reps s)
                   = snd r @ replace p v (subst_once reps (drop (length (fst r)) s))"
        using Some Cons p by (simp add: subst_once_Some replace_skip)
      also have "replace p v (subst_once reps (drop (length (fst r)) s))
                   = subst_once (reps @ [(p, v)]) (drop (length (fst r)) s)"
        using 1 r Cons by simp
      finally show ?thesis using find_append_Some [OF Some, of "[(p, v)]"] Cons
        by (simp add: subst_once_Some)
    next
      case None
      show ?thesis
      proof (cases "prefix p s")
        case True
        then obtain t where t: "s = p @ t" by (auto simp: prefix_def)
        have "\<forall>r \<in> set reps. placeholder (fst r)" using assms(2) by (simp add: good_def)
        from subst_once_over_placeholder [OF assms(1) this, of t] None Cons t
        have "subst_once reps s = p @ subst_once reps t" by simp
        then have "replace p v (subst_once reps s) = v @ replace p v (subst_once reps t)"
          using p by (simp add: replace_at)
        also have "replace p v (subst_once reps t) = subst_once (reps @ [(p, v)]) t"
          using 1 t p by simp
        finally have eq: "replace p v (subst_once reps s) = v @ subst_once (reps @ [(p, v)]) t" .
        have dt: "drop (length p) (c # cs) = t" using t Cons by (metis append_eq_conv_conj)
        have "find ?P (reps @ [(p, v)]) = Some (p, v)"
          using find_append_None [OF None, of "[(p, v)]"] Cons True p by simp
        from subst_once_Some [OF this] eq dt Cons show ?thesis by simp
      next
        case False
        have "\<forall>r \<in> set reps. snd r \<noteq> [] \<and> hd (snd r) \<notin> set p"
          using assms(2) p by (auto simp: good_def)
        from prefix_subst_once [OF this] False
        have "\<not> prefix p (subst_once reps s)" by blast
        then have "\<not> prefix p (c # subst_once reps cs)" using None Cons by (simp add: subst_once_None)
        then have "replace p v (subst_once reps s) = c # replace p v (subst_once reps cs)"
          using None Cons p by (simp add: subst_once_None)
        also have "replace p v (subst_once reps cs) = subst_once (reps @ [(p, v)]) cs"
          using 1 Cons by simp
        finally show ?thesis
          using find_append_None [OF None, of "[(p, v)]"] Cons False
          by (simp add: subst_once_None)
      qed
    qed
  qed
qed

lemma substitute_snoc: "substitute (reps @ [(p, v)]) s = replace p v (substitute reps s)"
  by (simp add: substitute_def)

lemma substitute_subst_once: "good reps \<Longrightarrow> substitute reps s = subst_once reps s"
proof (induction reps arbitrary: s rule: rev_induct)
  case Nil show ?case by (simp add: substitute_def)
next
  case (snoc r reps)
  obtain p v where r: "r = (p, v)" by (cases r)
  from snoc.prems have g: "good reps" and pl: "placeholder p" by (auto simp: good_def r)
  show ?case unfolding r substitute_snoc snoc.IH [OF g] by (rule replace_subst_once [OF pl g])
qed

declare str_nat.simps [simp del]

lemma digit_char_digit: "d < 10 \<Longrightarrow> digit_char d \<in> set ''0123456789''"
  unfolding digit_char_def by (rule nth_mem) simp

lemma str_nat_nonempty: "str_nat n \<noteq> []"
  by (subst str_nat.simps) simp

lemma str_nat_digits: "set (str_nat n) \<subseteq> set ''0123456789''"
proof (induction n rule: str_nat.induct)
  case (1 n)
  show ?case
  proof (cases "n < 10")
    case True
    then have "str_nat n = [digit_char n]" by (subst str_nat.simps) simp
    then show ?thesis using digit_char_digit [OF True] by simp
  next
    case False
    then have "str_nat n = str_nat (n div 10) @ [digit_char (n mod 10)]"
      by (subst str_nat.simps) simp
    moreover have "digit_char (n mod 10) \<in> set ''0123456789''" by (rule digit_char_digit) simp
    ultimately show ?thesis using 1 [OF False] by simp
  qed
qed

lemma digits_not_name: "c \<in> set ''0123456789'' \<Longrightarrow> c \<notin> name_chars \<and> c \<noteq> CHR ''{''"
  by (auto simp: name_chars_def)

lemma zfill_digits: "set s \<subseteq> set ''0123456789'' \<Longrightarrow> set (zfill w s) \<subseteq> set ''0123456789''"
  by (auto simp: zfill_def)

lemma zfill_nonempty: "s \<noteq> [] \<Longrightarrow> zfill w s \<noteq> []"
  by (simp add: zfill_def)


lemma d2_digits: "set (d2 n) \<subseteq> set ''0123456789''" "d2 n \<noteq> []"
  unfolding d2_def
  by (rule zfill_digits [OF str_nat_digits], rule zfill_nonempty [OF str_nat_nonempty])

lemma d4_digits: "set (d4 n) \<subseteq> set ''0123456789''" "d4 n \<noteq> []"
  unfolding d4_def
  by (rule zfill_digits [OF str_nat_digits], rule zfill_nonempty [OF str_nat_nonempty])

lemma no_brace: "set v \<subseteq> set ''0123456789'' \<Longrightarrow> CHR ''{'' \<notin> set v"
  using digits_not_name by blast

lemma digits_clean:
  assumes "v \<noteq> []" "set v \<subseteq> set ''0123456789''"
  shows "clean v"
proof -
  have "hd v \<in> set ''0123456789''" using assms by (meson hd_in_set subsetD)
  then have "hd v \<notin> name_chars" using digits_not_name by blast
  then show ?thesis using assms(1) no_brace [OF assms(2)] by (simp add: clean_def)
qed

lemma clean_append: "clean a \<Longrightarrow> CHR ''{'' \<notin> set b \<Longrightarrow> clean (a @ b)"
  by (simp add: clean_def)

lemma clean_str_nat: "clean (str_nat n)"
  by (rule digits_clean [OF str_nat_nonempty str_nat_digits])

lemma clean_status: "clean status_running" "clean status_stopped"
  by (simp_all add: clean_def status_running_def status_stopped_def name_chars_def)

lemma clean_date: "clean (strftime_date t)"
proof -
  have "clean (d4 (dt_year t))" by (rule digits_clean [OF d4_digits(2) d4_digits(1)])
  then show ?thesis unfolding strftime_date_def
    by (rule clean_append) (simp add: no_brace [OF d2_digits(1)])
qed

lemma clean_sync: "clean (strftime_sync t)"
  unfolding strftime_sync_def
  by (rule clean_append [OF clean_date]) (simp add: no_brace [OF d2_digits(1)])

lemma clean_iso: "clean (isoformat t)"
  unfolding isoformat_def
  by (rule clean_append [OF clean_date])
     (simp add: no_brace [OF d2_digits(1)] no_brace [OF zfill_digits [OF str_nat_digits]])


lemma placeholders_shaped:
  "list_all (\<lambda>r. placeholder (fst r)) (replacements t s)"
  by (simp add: replacements_def Let_def placeholder_def name_chars_def)

lemma good_replacements: "good (replacements t s)"
proof -
  have v: "list_all (\<lambda>r. clean (snd r)) (replacements t s)"
    using clean_str_nat clean_status clean_sync [of t] clean_iso [of t]
    by (simp add: replacements_def Let_def)
  show ?thesis
    using v placeholders_shaped [of t s] by (auto simp: good_def list_all_iff clean_def)
qed

lemma render_subst_once: "render t s content = subst_once (replacements t s) content"
  unfolding render_def by (rule substitute_subst_once [OF good_replacements])

lemma substitute_absent:
  "\<forall>r \<in> set reps. \<not> str_in (fst r) content \<Longrightarrow> substitute reps content = content"
proof (induction reps rule: rev_induct)
  case Nil show ?case by (simp add: substitute_def)
next
  case (snoc r reps)
  obtain p v where r: "r = (p, v)" by (cases r)
  from snoc show ?case unfolding r substitute_snoc by (simp add: replace_absent)
qed

lemma subst_once_plain:
  assumes "\<forall>r \<in> set reps. placeholder (fst r)" "CHR ''{'' \<notin> set u"
  shows "subst_once reps (u @ t) = u @ subst_once reps t"
proof (rule subst_once_copy, intro allI impI)
  fix i assume i: "i < length u"
  then obtain y ys where y: "drop i u = y # ys" "y \<in> set u"
    by (metis Cons_nth_drop_Suc nth_mem)
  have "\<not> prefix (fst r) (drop i u @ t)" if "r \<in> set reps" for r
  proof -
    from that assms(1) have "hd (fst r) = CHR ''{''" "fst r \<noteq> []"
      using placeholder_facts by auto
    then show ?thesis using y assms(2) by (cases "fst r") auto
  qed
  then show "find (\<lambda>r. fst r \<noteq> [] \<and> prefix (fst r) (drop i u @ t)) reps = None"
    by (auto simp: find_None_iff)
qed

lemma subst_once_head:
  "p \<noteq> [] \<Longrightarrow> subst_once ((p, v) # reps) (p @ b) = v @ subst_once ((p, v) # reps) b"
  by (cases p) (simp_all add: subst_once.simps(2))

lemma subst_once_keeps:
  assumes "\<forall>r \<in> set reps. placeholder (fst r)" "reps = (p, v) # rest"
    and "u \<noteq> []" "hd u \<notin> name_chars" "CHR ''{'' \<notin> set u"
  shows "str_in (u @ v) (subst_once reps (a @ u @ p @ b))"
proof (induction a rule: length_induct)
  case (1 a)
  have p: "p \<noteq> []" using assms(1,2) placeholder_facts(1) by auto
  show ?case
  proof (cases a)
    case Nil
    have "subst_once reps (u @ p @ b) = u @ v @ subst_once reps b"
      using subst_once_plain [OF assms(1,5)] subst_once_head [OF p] assms(2) by simp
    then show ?thesis using Nil str_in_prefix [of "u @ v"] by simp
  next
    case (Cons c a')
    let ?s = "c # a' @ u @ p @ b"
    show ?thesis
    proof (cases "find (\<lambda>r. fst r \<noteq> [] \<and> prefix (fst r) ?s) reps")
      case None
      then have "subst_once reps (a @ u @ p @ b) = c # subst_once reps (a' @ u @ p @ b)"
        using Cons by (simp add: subst_once_None)
      then show ?thesis using 1 Cons by simp
    next
      case (Some r)
      then have r: "r \<in> set reps" "fst r \<noteq> []" "prefix (fst r) (a @ u @ p @ b)"
        using Cons by (auto simp: find_Some_iff)
      have "prefix (fst r) a"
      proof (rule ccontr)
        assume np: "\<not> prefix (fst r) a"
        with r(3) obtain us where us: "fst r = a @ us" "prefix us (u @ p @ b)"
          by (auto simp: prefix_append)
        with np have "us \<noteq> []" by auto
        with us(2) assms(3) have "hd us = hd u" by (cases us; cases u) auto
        then have "hd u \<in> set (fst r)" using us(1) \<open>us \<noteq> []\<close> hd_in_set [of us] by simp
        moreover have "set (fst r) \<subseteq> name_chars" using r(1) assms(1) placeholder_facts(3) by auto
        ultimately show False using assms(4) by auto
      qed
      then obtain a2 where a2: "a = fst r @ a2" by (auto simp: prefix_def)
      then have "length a2 < length a" using r(2) by simp
      then have "str_in (u @ v) (subst_once reps (a2 @ u @ p @ b))" using 1 by simp
      moreover have "subst_once reps (a @ u @ p @ b)
                       = snd r @ subst_once reps (a2 @ u @ p @ b)"
      proof -
        have "drop (length (fst r)) (a @ u @ p @ b) = a2 @ u @ p @ b"
          by (subst a2) simp
        then show ?thesis using Some Cons subst_once_Some [of c "a' @ u @ p @ b" reps r] by simp
      qed
      ultimately show ?thesis by (simp add: str_in_append)
    qed
  qed
qed

lemma render_pending:
  assumes "count_files_in_folder (needs_action_folder s) = 3"
    and "str_in ''Pending: {{pending_count}}'' content"
  shows "str_in ''Pending: 3'' (render t s content)"
proof -
  from assms(2) obtain a b where "content = a @ ''Pending: {{pending_count}}'' @ b"
    unfolding str_in_iff by blast
  then have c: "content = a @ ''Pending: '' @ ''{{pending_count}}'' @ b" by simp
  have three: "str_nat 3 = ''3''" by (subst str_nat.simps) (simp add: digit_char_def)
  have g: "\<forall>r \<in> set (replacements t s). placeholder (fst r)"
    using good_replacements [of t s] by (simp add: good_def)
  obtain rest where r: "replacements t s = (''{{pending_count}}'', ''3'') # rest"
    using assms(1) three by (simp add: replacements_def Let_def)
  have "str_in (''Pending: '' @ ''3'') (subst_once (replacements t s) content)"
    unfolding c by (rule subst_once_keeps [OF g r]) (simp_all add: name_chars_def)
  then show ?thesis by (simp add: render_subst_once)
qed

lemma str_nat_0: "str_nat 0 = ''0''"
  by (subst str_nat.simps) (simp add: digit_char_def)

lemma un_keep: "c \<noteq> CHR 0x0D \<Longrightarrow> universal_newlines (c # xs) = c # universal_newlines xs"
  by (cases xs) simp_all

lemma un_copy: "CHR 0x0D \<notin> set p \<Longrightarrow> universal_newlines (p @ b) = p @ universal_newlines b"
  by (induction p) (auto simp: un_keep)

lemma un_append:
  "x \<noteq> [] \<Longrightarrow> hd x \<noteq> CHR 0x0A \<Longrightarrow>
   universal_newlines (a @ x) = universal_newlines a @ universal_newlines x"
proof (induction a rule: universal_newlines.induct)
  case 1 show ?case by simp
next
  case (2 c)
  then show ?case by (cases x) simp_all
next
  case (3 c d cs)
  then show ?case by simp
qed

lemma str_in_universal_newlines:
  assumes "p \<noteq> []" "CHR 0x0D \<notin> set p" "CHR 0x0A \<notin> set p" "str_in p s"
  shows "str_in p (universal_newlines s)"
proof -
  from assms(4) obtain a b where s: "s = a @ p @ b" unfolding str_in_iff by blast
  have "hd (p @ b) \<noteq> CHR 0x0A" using assms(1,3) by (cases p) auto
  then have "universal_newlines s = universal_newlines a @ universal_newlines (p @ b)"
    unfolding s using assms(1) by (intro un_append) simp_all
  then have "universal_newlines s = universal_newlines a @ p @ universal_newlines b"
    using assms(2) by (simp add: un_copy)
  then show ?thesis unfolding str_in_iff by blast
qed

lemma named_prefix:
  assumes "CHR ''}'' \<notin> set n1" "CHR ''}'' \<notin> set n2"
    and "prefix (placeholder_named n1) (placeholder_named n2 @ b)"
  shows "n1 = n2"
proof -
  from assms(3) have "prefix (n1 @ ''}}'') (n2 @ ''}}'' @ b)"
    by (simp add: placeholder_named_def)
  with assms(1,2) show ?thesis
  proof (induction n1 arbitrary: n2)
    case Nil then show ?case by (cases n2) auto
  next
    case (Cons x n1)
    then show ?case by (cases n2) auto
  qed
qed

lemma not_inside_named:
  assumes "placeholder p" "CHR ''{'' \<notin> set n" "0 < i" "i < length (placeholder_named n)"
  shows "\<not> prefix p (drop i (placeholder_named n) @ t)"
proof
  assume pre: "prefix p (drop i (placeholder_named n) @ t)"
  obtain c rest where p: "p = CHR ''{'' # CHR ''{'' # c # rest"
    using assms(1) by (auto simp: placeholder_def split: list.splits)
  obtain j where j: "i = Suc j" using assms(3) by (cases i) auto
  have q: "drop i (placeholder_named n) = drop j (CHR ''{'' # n @ ''}}'')"
    by (simp add: placeholder_named_def j)
  show False
  proof (cases j)
    case 0
    with pre q p have "prefix (CHR ''{'' # c # rest) (n @ ''}}'' @ t)" by simp
    then have "hd (n @ ''}}'' @ t) = CHR ''{''" by (cases "n @ ''}}'' @ t") auto
    then show False using assms(2) by (cases n) auto
  next
    case (Suc k)
    then have d: "drop i (placeholder_named n) = drop k (n @ ''}}'')" using q by simp
    have "k < length (n @ ''}}'')" using assms(4) j Suc by (simp add: placeholder_named_def)
    then obtain y ys where y: "drop k (n @ ''}}'') = y # ys" "y \<in> set (n @ ''}}'')"
      by (metis Cons_nth_drop_Suc nth_mem)
    have "prefix p (drop k (n @ ''}}'') @ t)" using pre unfolding d .
    then have "prefix p (y # ys @ t)" unfolding y(1) by simp
    with p have "y = CHR ''{''" by simp
    with y(2) assms(2) show False by auto
  qed
qed

lemma not_across_named:
  assumes "placeholder p" "p = a @ us" "a \<noteq> []" "us \<noteq> []"
    and "prefix us (placeholder_named n @ b)"
  shows False
proof -
  obtain c rest where p: "p = CHR ''{'' # CHR ''{'' # c # rest" "CHR ''{'' \<notin> set (c # rest)"
    using assms(1) by (auto simp: placeholder_def split: list.splits)
  have h: "hd us = CHR ''{''" using assms(4,5) by (cases us) (auto simp: placeholder_named_def)
  show False
  proof (cases "length a = 1")
    case True
    then have "us = CHR ''{'' # c # rest" using assms(2) p(1) by (cases a) auto
    with assms(5) have "c = CHR ''{''" by (auto simp: placeholder_named_def)
    with p(2) show False by simp
  next
    case False
    then obtain x y a' where a: "a = x # y # a'" using assms(3) by (cases a; cases "tl a") auto
    then have e: "c # rest = a' @ us" using assms(2) p(1) by simp
    have "hd us \<in> set (a' @ us)" using assms(4) by simp
    then have "hd us \<in> set (c # rest)" by (simp only: e)
    with h p(2) show False by simp
  qed
qed

lemma subst_once_keeps_named:
  assumes "\<forall>r \<in> set reps. placeholder (fst r)"
    and "\<forall>r \<in> set reps. \<exists>m. fst r = placeholder_named m \<and> CHR ''}'' \<notin> set m"
    and "CHR ''{'' \<notin> set n" "CHR ''}'' \<notin> set n"
    and "placeholder_named n \<notin> fst ` set reps"
  shows "str_in (placeholder_named n) (subst_once reps (a @ placeholder_named n @ b))"
proof (induction a rule: length_induct)
  case (1 a)
  let ?q = "placeholder_named n"
  show ?case
  proof (cases a)
    case Nil
    have "subst_once reps (?q @ b) = ?q @ subst_once reps b"
    proof (rule subst_once_copy, intro allI impI)
      fix i assume i: "i < length ?q"
      have "\<not> prefix (fst r) (drop i ?q @ b)" if r: "r \<in> set reps" for r
      proof (cases "i = 0")
        case True
        from r assms(2) obtain m where m: "fst r = placeholder_named m" "CHR ''}'' \<notin> set m" by blast
        show ?thesis
        proof
          assume "prefix (fst r) (drop i ?q @ b)"
          then have "m = n" using named_prefix [OF m(2) assms(4), of b] m(1) True by simp
          then show False using m(1) r assms(5) by force
        qed
      next
        case False
        then show ?thesis using not_inside_named [OF _ assms(3) _ i] r assms(1) by auto
      qed
      then show "find (\<lambda>r. fst r \<noteq> [] \<and> prefix (fst r) (drop i ?q @ b)) reps = None"
        by (auto simp: find_None_iff)
    qed
    then show ?thesis using Nil str_in_prefix [of ?q] by simp
  next
    case (Cons c a')
    let ?s = "c # a' @ ?q @ b"
    show ?thesis
    proof (cases "find (\<lambda>r. fst r \<noteq> [] \<and> prefix (fst r) ?s) reps")
      case None
      then have "subst_once reps (a @ ?q @ b) = c # subst_once reps (a' @ ?q @ b)"
        using Cons by (simp add: subst_once_None)
      then show ?thesis using 1 Cons by simp
    next
      case (Some r)
      then have r: "r \<in> set reps" "fst r \<noteq> []" "prefix (fst r) (a @ ?q @ b)"
        using Cons by (auto simp: find_Some_iff)
      have "prefix (fst r) a"
      proof (rule ccontr)
        assume np: "\<not> prefix (fst r) a"
        with r(3) obtain us where us: "fst r = a @ us" "prefix us (?q @ b)"
          by (auto simp: prefix_append)
        with np have "us \<noteq> []" by auto
        moreover have "a \<noteq> []" using Cons by simp
        ultimately show False using not_across_named [OF _ us(1) _ _ us(2)] r(1) assms(1) by blast
      qed
      then obtain a2 where a2: "a = fst r @ a2" by (auto simp: prefix_def)
      then have "length a2 < length a" using r(2) by simp
      then have "str_in ?q (subst_once reps (a2 @ ?q @ b))" using 1 by simp
      moreover have "subst_once reps (a @ ?q @ b) = snd r @ subst_once reps (a2 @ ?q @ b)"
      proof -
        have "drop (length (fst r)) (a @ ?q @ b) = a2 @ ?q @ b"
          by (subst a2) simp
        then show ?thesis using Some Cons subst_once_Some [of c "a' @ ?q @ b" reps r] by simp
      qed
      ultimately show ?thesis by (simp add: str_in_append)
    qed
  qed
qed

lemma replacements_named:
  "\<forall>r \<in> set (replacements t s). \<exists>m. fst r = placeholder_named m \<and> CHR ''}'' \<notin> set m"
proof
  fix r assume r: "r \<in> set (replacements t s)"
  define names where "names = [''pending_count'', ''active_plans_count'', ''completed_today'',
               ''completed_this_week'', ''inbox_count'', ''needs_action_count'',
               ''pending_approval_count'', ''approved_count'', ''watcher_status'',
               ''orchestrator_status'', ''last_sync'', ''timestamp'']"
  have "map fst (replacements t s) = map placeholder_named names"
    by (simp add: replacements_def Let_def placeholder_named_def names_def)
  then have "set (map fst (replacements t s)) = set (map placeholder_named names)" by simp
  then have e: "fst ` set (replacements t s) = placeholder_named ` set names" by simp
  have "fst r \<in> fst ` set (replacements t s)" using r by simp
  then have "fst r \<in> placeholder_named ` set names" unfolding e .
  then obtain m where m: "m \<in> set names" "fst r = placeholder_named m" by blast
  have "\<forall>m \<in> set names. CHR ''}'' \<notin> set m" by (simp add: names_def)
  with m show "\<exists>m. fst r = placeholder_named m \<and> CHR ''}'' \<notin> set m" by blast
qed

lemma render_keeps_named:
  assumes "CHR ''{'' \<notin> set n" "CHR ''}'' \<notin> set n"
    and "placeholder_named n \<notin> fst ` set (replacements t s)"
    and "str_in (placeholder_named n) content"
  shows "str_in (placeholder_named n) (render t s content)"
proof -
  from assms(4) obtain a b where c: "content = a @ placeholder_named n @ b"
    unfolding str_in_iff by blast
  have g: "\<forall>r \<in> set (replacements t s). placeholder (fst r)"
    using good_replacements [of t s] by (simp add: good_def)
  show ?thesis
    unfolding render_subst_once c
    by (rule subst_once_keeps_named [OF g replacements_named assms(1,2,3)])
qed

text \<open>
  C8, as stated, fails: with three files in the landing folder of which none has the
  suffix \<open>.md\<close>, the template \<open>Pending: {{pending_count}}\<close> is rendered as \<open>Pending: 0\<close>.
\<close>

theorem render_counts_md_files_only:
  "length (needs_action_folder (sample_vault\<lparr>needs_action_folder :=
       [(''a.txt'', regular ''x'' 1), (''b.txt'', regular ''y'' 2), (''c.meta.json'', regular ''z'' 3)]\<rparr>)) = 3
   \<and> list_all (\<lambda>p. f_is_file (snd p)) (needs_action_folder (sample_vault\<lparr>needs_action_folder :=
       [(''a.txt'', regular ''x'' 1), (''b.txt'', regular ''y'' 2), (''c.meta.json'', regular ''z'' 3)]\<rparr>))
   \<and> \<not> str_in ''Pending: 3'' (render sample_time (sample_vault\<lparr>needs_action_folder :=
       [(''a.txt'', regular ''x'' 1), (''b.txt'', regular ''y'' 2), (''c.meta.json'', regular ''z'' 3)]\<rparr>)
       ''Pending: {{pending_count}}'')
   \<and> render sample_time (sample_vault\<lparr>needs_action_folder :=
       [(''a.txt'', regular ''x'' 1), (''b.txt'', regular ''y'' 2), (''c.meta.json'', regular ''z'' 3)]\<rparr>)
       ''Pending: {{pending_count}}'' = ''Pending: 0''"
proof -
  let ?v = "sample_vault\<lparr>needs_action_folder :=
       [(''a.txt'', regular ''x'' 1), (''b.txt'', regular ''y'' 2), (''c.meta.json'', regular ''z'' 3)]\<rparr>"
  have n: "count_files_in_folder (needs_action_folder ?v) = 0"
    by (simp add: count_files_in_folder_def is_md_file_def path_suffix_def)
  have "replace ''{{pending_count}}'' ''0'' ''Pending: {{pending_count}}'' = ''Pending: 0''"
    by simp
  then have "render sample_time ?v ''Pending: {{pending_count}}'' = ''Pending: 0''"
    unfolding render_def substitute_def replacements_def Let_def n str_nat_0 by simp
  then show ?thesis by (simp add: regular_def)
qed

text \<open>
  C8, amended: rendering the text of the template is the substitution, in one pass, of
  every occurrence of each recognised placeholder by its value, and a placeholder
  \<open>{{n}}\<close> that is not a recognised one (\<open>n\<close> without braces) and occurs in the text occurs in
  the output; for a text that contains \<open>Pending: {{pending_count}}\<close> and a landing folder
  with exactly three regular files of suffix \<open>.md\<close> the output contains \<open>Pending: 3\<close>, and
  so it is for a template file whose bytes contain that text; \<open>update_dashboard\<close> writes the
  rendering of the text read from the file into a dashboard file that can be read and
  written, and without a dashboard file it only logs a warning.
\<close>

theorem render_one_pass:
  "render t s content = subst_once (replacements t s) content
   \<and> (CHR ''{'' \<notin> set n \<and> CHR ''}'' \<notin> set n
        \<and> placeholder_named n \<notin> fst ` set (replacements t s)
        \<and> str_in (placeholder_named n) content
        \<longrightarrow> str_in (placeholder_named n) (render t s content))
   \<and> (length (filter (\<lambda>(name, f). path_suffix name = ''.md'' \<and> f_is_file f)
                (needs_action_folder s)) = 3
        \<and> str_in ''Pending: {{pending_count}}'' content
        \<longrightarrow> str_in ''Pending: 3'' (render t s content))
   \<and> (length (filter (\<lambda>(name, f). path_suffix name = ''.md'' \<and> f_is_file f)
                (needs_action_folder s)) = 3
        \<and> str_in ''Pending: {{pending_count}}'' (f_data d)
        \<longrightarrow> str_in ''Pending: 3'' (render t s (read_text d)))
   \<and> (dashboard_file s = Some d \<and> f_is_file d \<and> f_readable d \<and> f_writable d
        \<longrightarrow> update_dashboard t s
              = s\<lparr>dashboard_file :=
                    Some (d\<lparr>f_data := render t s (read_text d), f_mtime := dt_posix t\<rparr>)\<rparr>)
   \<and> (dashboard_file s = None
        \<longrightarrow> update_dashboard t s = s\<lparr>o_logger := o_logger s @ [(WARNING, ''Dashboard.md not found'')]\<rparr>)"
proof -
  have c: "count_files_in_folder fld
             = length (filter (\<lambda>(name, f). path_suffix name = ''.md'' \<and> f_is_file f) fld)" for fld
  proof -
    have "is_md_file = (\<lambda>p. path_suffix (fst p) = ''.md'' \<and> f_is_file (snd p))"
      by (rule ext) (simp add: is_md_file_def)
    then show ?thesis by (simp add: count_files_in_folder_def case_prod_unfold)
  qed
  have 1: "render t s content = subst_once (replacements t s) content"
    by (rule render_subst_once)
  have 2: "CHR ''{'' \<notin> set n \<and> CHR ''}'' \<notin> set n
        \<and> placeholder_named n \<notin> fst ` set (replacements t s)
        \<and> str_in (placeholder_named n) content
        \<longrightarrow> str_in (placeholder_named n) (render t s content)"
    using render_keeps_named [of n t s content] by blast
  have 3: "length (filter (\<lambda>(name, f). path_suffix name = ''.md'' \<and> f_is_file f)
                (needs_action_folder s)) = 3
        \<and> str_in ''Pending: {{pending_count}}'' content
        \<longrightarrow> str_in ''Pending: 3'' (render t s content)"
    using render_pending [of s content t] by (simp add: c)
  have r: "str_in ''Pending: {{pending_count}}'' (f_data d)
             \<Longrightarrow> str_in ''Pending: {{pending_count}}'' (read_text d)"
    unfolding read_text_def by (rule str_in_universal_newlines) simp_all
  have 4: "length (filter (\<lambda>(name, f). path_suffix name = ''.md'' \<and> f_is_file f)
                (needs_action_folder s)) = 3
        \<and> str_in ''Pending: {{pending_count}}'' (f_data d)
        \<longrightarrow> str_in ''Pending: 3'' (render t s (read_text d))"
    using render_pending [of s "read_text d" t] r by (simp add: c)
  have 5: "dashboard_file s = Some d \<and> f_is_file d \<and> f_readable d \<and> f_writable d
        \<longrightarrow> update_dashboard t s
              = s\<lparr>dashboard_file :=
                    Some (d\<lparr>f_data := render t s (read_text d), f_mtime := dt_posix t\<rparr>)\<rparr>"
    by (simp add: update_dashboard_def)
  have 6: "dashboard_file s = None
        \<longrightarrow> update_dashboard t s = s\<lparr>o_logger := o_logger s @ [(WARNING, ''Dashboard.md not found'')]\<rparr>"
    by (simp add: update_dashboard_def o_log_def)
  from 1 2 3 4 5 6 show ?thesis by blast
qed

theorem render_one_pass_witness:
  "str_in ''Pending: 3'' (render sample_time sample_vault ''Pending: {{pending_count}}'')
   \<and> str_in ''{{done_count}}'' (render sample_time sample_vault ''Done: {{done_count}}'')
   \<and> str_in ''Pending: 3''
        (render sample_time sample_vault
           (read_text (regular (''Pending: {{pending_count}}'' @ [CHR 0x0D, CHR 0x0A]) 0)))
   \<and> update_dashboard sample_time sample_vault
       = sample_vault\<lparr>dashboard_file :=
           Some (regular (render sample_time sample_vault ''Pending: {{pending_count}}'')
                   (dt_posix sample_time))\<rparr>
   \<and> update_dashboard sample_time (sample_vault\<lparr>dashboard_file := None\<rparr>)
       = sample_vault\<lparr>dashboard_file := None, o_logger := [(WARNING, ''Dashboard.md not found'')]\<rparr>"
proof -
  have h1: "length (filter (\<lambda>(name, f). path_suffix name = ''.md'' \<and> f_is_file f)
                      (needs_action_folder sample_vault)) = 3"
    by (simp add: sample_vault_def regular_def path_suffix_def)
  have h2: "str_in ''Pending: {{pending_count}}'' ''Pending: {{pending_count}}''"
    by simp
  have h3: "CHR ''{'' \<notin> set ''done_count'' \<and> CHR ''}'' \<notin> set ''done_count''
            \<and> placeholder_named ''done_count'' \<notin> fst ` set (replacements sample_time sample_vault)
            \<and> str_in (placeholder_named ''done_count'') ''Done: {{done_count}}''"
    by (simp add: replacements_def Let_def placeholder_named_def)
  have h4: "dashboard_file (sample_vault\<lparr>dashboard_file := None\<rparr>) = None"
    by simp
  have h5: "str_in ''Pending: {{pending_count}}''
              (f_data (regular (''Pending: {{pending_count}}'' @ [CHR 0x0D, CHR 0x0A]) 0))"
    by (simp add: regular_def)
  have h6: "dashboard_file sample_vault = Some (regular ''Pending: {{pending_count}}'' 0)
            \<and> f_is_file (regular ''Pending: {{pending_count}}'' 0)
            \<and> f_readable (regular ''Pending: {{pending_count}}'' 0)
            \<and> f_writable (regular ''Pending: {{pending_count}}'' 0)"
    by (simp add: sample_vault_def regular_def)
  have rt: "read_text (regular ''Pending: {{pending_count}}'' 0) = ''Pending: {{pending_count}}''"
    by (simp add: read_text_def regular_def)
  have a: "str_in ''Pending: 3'' (render sample_time sample_vault ''Pending: {{pending_count}}'')"
    using render_one_pass [of sample_time sample_vault "''Pending: {{pending_count}}''"] h1 h2 by blast
  have b: "str_in (placeholder_named ''done_count'')
             (render sample_time sample_vault ''Done: {{done_count}}'')"
    using render_one_pass [of sample_time sample_vault "''Done: {{done_count}}''" "''done_count''"] h3
    by blast
  have c: "str_in ''Pending: 3''
        (render sample_time sample_vault
           (read_text (regular (''Pending: {{pending_count}}'' @ [CHR 0x0D, CHR 0x0A]) 0)))"
    using render_one_pass [of sample_time sample_vault _ _
        "regular (''Pending: {{pending_count}}'' @ [CHR 0x0D, CHR 0x0A]) 0"] h1 h5 by blast
  have d: "update_dashboard sample_time sample_vault
       = sample_vault\<lparr>dashboard_file :=
           Some ((regular ''Pending: {{pending_count}}'' 0)
                   \<lparr>f_data := render sample_time sample_vault
                                (read_text (regular ''Pending: {{pending_count}}'' 0)),
                    f_mtime := dt_posix sample_time\<rparr>)\<rparr>"
    using render_one_pass [of sample_time sample_vault _ _ "regular ''Pending: {{pending_count}}'' 0"]
      h6 by blast
  have e: "update_dashboard sample_time (sample_vault\<lparr>dashboard_file := None\<rparr>)
       = sample_vault\<lparr>dashboard_file := None, o_logger := [(WARNING, ''Dashboard.md not found'')]\<rparr>"
    using render_one_pass [of sample_time "sample_vault\<lparr>dashboard_file := None\<rparr>"] h4
    by (simp add: sample_vault_def)
  from d have d': "update_dashboard sample_time sample_vault
       = sample_vault\<lparr>dashboard_file :=
           Some (regular (render sample_time sample_vault ''Pending: {{pending_count}}'')
                   (dt_posix sample_time))\<rparr>"
    unfolding rt by (simp add: regular_def)
  from a b c d' e show ?thesis by (simp add: placeholder_named_def)
qed

section \<open>The orchestrator cycle\<close>

lemma o_log_fields [simp]:
  "needs_action_folder (o_log l m s) = needs_action_folder s"
  "plans_folder (o_log l m s) = plans_folder s"
  "approved_folder (o_log l m s) = approved_folder s"
  "rejected_folder (o_log l m s) = rejected_folder s"
  "done_folder (o_log l m s) = done_folder s"
  "dir_writable (o_log l m s) = dir_writable s"
  "vault_path (o_log l m s) = vault_path s"
  "processed_files (o_log l m s) = processed_files s"
  "daily_logs (o_log l m s) = daily_logs s"
  by (simp_all add: o_log_def)

lemma log_action_fields [simp]:
  "needs_action_folder (log_action t a d r s) = needs_action_folder s"
  "plans_folder (log_action t a d r s) = plans_folder s"
  "approved_folder (log_action t a d r s) = approved_folder s"
  "rejected_folder (log_action t a d r s) = rejected_folder s"
  "done_folder (log_action t a d r s) = done_folder s"
  "dir_writable (log_action t a d r s) = dir_writable s"
  "vault_path (log_action t a d r s) = vault_path s"
  "processed_files (log_action t a d r s) = processed_files s"
  by (simp_all add: log_action_def Let_def split: log_file.splits json.splits)

lemma update_dashboard_fields [simp]:
  "needs_action_folder (update_dashboard t s) = needs_action_folder s"
  "plans_folder (update_dashboard t s) = plans_folder s"
  "approved_folder (update_dashboard t s) = approved_folder s"
  "rejected_folder (update_dashboard t s) = rejected_folder s"
  "done_folder (update_dashboard t s) = done_folder s"
  "dir_writable (update_dashboard t s) = dir_writable s"
  "vault_path (update_dashboard t s) = vault_path s"
  "processed_files (update_dashboard t s) = processed_files s"
  by (simp_all add: update_dashboard_def split: option.splits)

lemma save_state_fields [simp]:
  "needs_action_folder (save_state t s) = needs_action_folder s"
  "plans_folder (save_state t s) = plans_folder s"
  "approved_folder (save_state t s) = approved_folder s"
  "rejected_folder (save_state t s) = rejected_folder s"
  "done_folder (save_state t s) = done_folder s"
  "dir_writable (save_state t s) = dir_writable s"
  "vault_path (save_state t s) = vault_path s"
  "processed_files (save_state t s) = processed_files s"
  by (simp_all add: save_state_def)

lemma shutil_move_fields [simp]:
  "needs_action_folder (snd (shutil_move n f s)) = needs_action_folder s"
  "plans_folder (snd (shutil_move n f s)) = plans_folder s"
  "rejected_folder (snd (shutil_move n f s)) = rejected_folder s"
  "dir_writable (snd (shutil_move n f s)) = dir_writable s"
  "vault_path (snd (shutil_move n f s)) = vault_path s"
  "processed_files (snd (shutil_move n f s)) = processed_files s"
  by (simp_all add: shutil_move_def Let_def place_in_done_def remove_source_def)

lemma move_to_done_fields [simp]:
  "needs_action_folder (move_to_done t n s) = needs_action_folder s"
  "plans_folder (move_to_done t n s) = plans_folder s"
  "rejected_folder (move_to_done t n s) = rejected_folder s"
  "dir_writable (move_to_done t n s) = dir_writable s"
  "vault_path (move_to_done t n s) = vault_path s"
  "processed_files (move_to_done t n s) = processed_files s"
  by (simp_all add: move_to_done_def case_prod_unfold Let_def split: option.splits)

lemma movable_move [simp]: "movable (move_to_done t n s) = movable s"
  by (simp add: movable_def)

text \<open>
  The move of an entry whose name is not in the done folder: a rename when both folders
  accept it; a copy that stays beside the source when only the approved folder refuses;
  nothing otherwise.
\<close>

lemma shutil_move_fresh:
  "map_of (done_folder s) n = None \<Longrightarrow>
   shutil_move n f s
     = (if dir_writable s ''Approved'' \<and> dir_writable s ''Done''
        then (True, remove_source n (place_in_done False n f s))
        else if f_readable f \<and> dir_writable s ''Done''
        then (False, place_in_done False n f s)
        else (False, s))"
  by (auto simp: shutil_move_def Let_def)

lemma move_to_done_folders:
  "approved_folder (move_to_done t n s)
     = (case map_of (approved_folder s) n of
          None \<Rightarrow> approved_folder s
        | Some f \<Rightarrow> approved_folder (snd (shutil_move n f s)))"
  "done_folder (move_to_done t n s)
     = (case map_of (approved_folder s) n of
          None \<Rightarrow> done_folder s
        | Some f \<Rightarrow> done_folder (snd (shutil_move n f s)))"
  by (simp_all add: move_to_done_def case_prod_unfold Let_def split: option.splits)

lemma shutil_move_shape:
  "approved_folder (snd (shutil_move n f s)) = approved_folder s
   \<or> approved_folder (snd (shutil_move n f s)) = AList.delete n (approved_folder s)"
  "done_folder (snd (shutil_move n f s)) = done_folder s
   \<or> done_folder (snd (shutil_move n f s)) = AList.update n f (done_folder s)"
  by (simp_all add: shutil_move_def Let_def place_in_done_def remove_source_def)

lemma approved_not_done:
  "one_place s \<Longrightarrow> map_of (approved_folder s) n = Some f \<Longrightarrow> map_of (done_folder s) n = None"
proof -
  assume o: "one_place s" and m: "map_of (approved_folder s) n = Some f"
  from m have "n \<in> fst ` set (approved_folder s)" by (metis map_of_eq_None_iff option.distinct(1))
  with o have "n \<notin> fst ` set (done_folder s)" by (auto simp: one_place_def)
  then show ?thesis by (simp add: map_of_eq_None_iff)
qed

lemma move_to_done_moved:
  "map_of (approved_folder s) n = Some f \<Longrightarrow> map_of (done_folder s) n = None \<Longrightarrow> movable s \<Longrightarrow>
   approved_folder (move_to_done t n s) = AList.delete n (approved_folder s)
   \<and> done_folder (move_to_done t n s) = AList.update n f (done_folder s)"
  by (simp add: move_to_done_folders shutil_move_fresh movable_def place_in_done_def
        remove_source_def)

lemma move_to_done_stays:
  "map_of (approved_folder s) n = None
     \<or> (map_of (done_folder s) n = None \<and> \<not> dir_writable s ''Done'') \<Longrightarrow>
   approved_folder (move_to_done t n s) = approved_folder s
   \<and> done_folder (move_to_done t n s) = done_folder s"
  by (auto simp: move_to_done_folders shutil_move_fresh split: option.splits)

lemma move_to_done_copied:
  "map_of (approved_folder s) n = Some f \<Longrightarrow> map_of (done_folder s) n = None \<Longrightarrow>
   \<not> dir_writable s ''Approved'' \<Longrightarrow> dir_writable s ''Done'' \<Longrightarrow> f_readable f \<Longrightarrow>
   approved_folder (move_to_done t n s) = approved_folder s
   \<and> done_folder (move_to_done t n s) = AList.update n f (done_folder s)"
  by (simp add: move_to_done_folders shutil_move_fresh place_in_done_def)

lemma distinct_move:
  "distinct (L @ A @ R @ D) \<Longrightarrow> n \<in> set A \<Longrightarrow> distinct (L @ removeAll n A @ R @ D @ [n])"
  by (auto simp: distinct_removeAll)

lemma one_place_cong:
  "map fst (needs_action_folder s') = map fst (needs_action_folder s) \<Longrightarrow>
   map fst (approved_folder s') = map fst (approved_folder s) \<Longrightarrow>
   map fst (rejected_folder s') = map fst (rejected_folder s) \<Longrightarrow>
   map fst (done_folder s') = map fst (done_folder s) \<Longrightarrow> one_place s' = one_place s"
  by (simp add: one_place_def)

lemma one_place_move:
  assumes o: "one_place s" and w: "dir_writable s ''Done'' \<longrightarrow> dir_writable s ''Approved''"
  shows "one_place (move_to_done t n s)"
proof (cases "map_of (approved_folder s) n")
  case None
  then show ?thesis using o move_to_done_stays [of s n t] by (simp add: one_place_def)
next
  case (Some f)
  have fresh: "map_of (done_folder s) n = None" using o Some by (rule approved_not_done)
  show ?thesis
  proof (cases "movable s")
    case False
    then have "\<not> dir_writable s ''Done''" using w by (auto simp: movable_def)
    then show ?thesis using o fresh move_to_done_stays [of s n t] by (simp add: one_place_def)
  next
    case True
    from Some have "n \<in> fst ` set (approved_folder s)" by (metis map_of_eq_None_iff option.distinct(1))
    with o have nd: "n \<notin> fst ` set (done_folder s)" "n \<notin> fst ` set (needs_action_folder s)"
      "n \<notin> fst ` set (rejected_folder s)"
      by (auto simp: one_place_def)
    have k: "map fst (AList.update n f (done_folder s)) = map fst (done_folder s) @ [n]"
      using nd(1) by (simp add: update_keys)
    have "distinct (map fst (needs_action_folder s) @ removeAll n (map fst (approved_folder s))
             @ map fst (rejected_folder s) @ map fst (done_folder s) @ [n])"
      using o \<open>n \<in> fst ` set (approved_folder s)\<close>
      by (intro distinct_move) (simp_all add: one_place_def)
    then show ?thesis using move_to_done_moved [OF Some fresh True, of t]
      by (simp add: one_place_def k delete_keys)
  qed
qed

lemma map_of_move_other:
  assumes "name \<noteq> n"
  shows "map_of (approved_folder (move_to_done t n s)) name = map_of (approved_folder s) name
     \<and> map_of (done_folder (move_to_done t n s)) name = map_of (done_folder s) name"
proof (cases "map_of (approved_folder s) n")
  case None
  then show ?thesis by (simp add: move_to_done_folders)
next
  case (Some f)
  have "map_of (approved_folder (snd (shutil_move n f s))) name = map_of (approved_folder s) name"
    using shutil_move_shape(1) [of n f s] assms by (auto simp: delete_conv)
  moreover
  have "map_of (done_folder (snd (shutil_move n f s))) name = map_of (done_folder s) name"
    using shutil_move_shape(2) [of n f s] assms by (auto simp: update_conv')
  ultimately show ?thesis using Some by (simp add: move_to_done_folders)
qed

lemma fold_move_fields [simp]:
  "needs_action_folder (fold (move_to_done t) ns s) = needs_action_folder s"
  "plans_folder (fold (move_to_done t) ns s) = plans_folder s"
  "rejected_folder (fold (move_to_done t) ns s) = rejected_folder s"
  "dir_writable (fold (move_to_done t) ns s) = dir_writable s"
  "vault_path (fold (move_to_done t) ns s) = vault_path s"
  "processed_files (fold (move_to_done t) ns s) = processed_files s"
  "movable (fold (move_to_done t) ns s) = movable s"
  by (induction ns arbitrary: s) simp_all

lemma one_place_fold_move:
  "one_place s \<Longrightarrow> dir_writable s ''Done'' \<longrightarrow> dir_writable s ''Approved'' \<Longrightarrow>
   one_place (fold (move_to_done t) ns s)"
  by (induction ns arbitrary: s) (simp_all add: one_place_move)

lemma fold_move_other:
  "name \<notin> set ns \<Longrightarrow>
   map_of (approved_folder (fold (move_to_done t) ns s)) name = map_of (approved_folder s) name
   \<and> map_of (done_folder (fold (move_to_done t) ns s)) name = map_of (done_folder s) name"
  by (induction ns arbitrary: s) (simp_all add: map_of_move_other)

lemma move_to_done_gone:
  "map_of (approved_folder s) n = None \<Longrightarrow> move_to_done t n s = o_log ERROR ''Error moving file to Done'' s"
  by (simp add: move_to_done_def)

lemma fold_move_moved:
  "name \<in> set ns \<Longrightarrow> map_of (approved_folder s) name = Some f \<Longrightarrow> movable s \<Longrightarrow>
   one_place s \<Longrightarrow>
   map_of (approved_folder (fold (move_to_done t) ns s)) name = None
   \<and> map_of (done_folder (fold (move_to_done t) ns s)) name = Some f"
proof (induction ns arbitrary: s)
  case Nil then show ?case by simp
next
  case (Cons n ns)
  have w: "dir_writable s ''Done'' \<longrightarrow> dir_writable s ''Approved''"
    using Cons.prems(3) by (simp add: movable_def)
  show ?case
  proof (cases "n = name")
    case True
    let ?s1 = "move_to_done t name s"
    have fresh: "map_of (done_folder s) name = None"
      using Cons.prems(4,2) by (rule approved_not_done)
    have a: "map_of (approved_folder ?s1) name = None" "map_of (done_folder ?s1) name = Some f"
      using move_to_done_moved [OF Cons.prems(2) fresh Cons.prems(3), of t]
      by (simp_all add: delete_conv update_conv')
    have keep: "map_of (approved_folder (fold (move_to_done t) ms s')) name = None
                \<and> map_of (done_folder (fold (move_to_done t) ms s')) name = Some f"
      if "map_of (approved_folder s') name = None" "map_of (done_folder s') name = Some f"
      for ms s'
      using that
    proof (induction ms arbitrary: s')
      case Nil then show ?case by simp
    next
      case (Cons m ms)
      have "map_of (approved_folder (move_to_done t m s')) name = None
            \<and> map_of (done_folder (move_to_done t m s')) name = Some f"
      proof (cases "m = name")
        case True then show ?thesis using Cons.prems move_to_done_stays [of s' name t] by simp
      next
        case False then show ?thesis using Cons.prems map_of_move_other [of name m t s'] by simp
      qed
      then show ?case using Cons.IH by simp
    qed
    from keep [OF a] True show ?thesis by simp
  next
    case False
    then have "name \<in> set ns" using Cons.prems(1) by simp
    moreover have "map_of (approved_folder (move_to_done t n s)) name = Some f"
      using False Cons.prems(2) map_of_move_other [of name n t s] by simp
    moreover have "one_place (move_to_done t n s)" using Cons.prems(4) w by (rule one_place_move)
    ultimately show ?thesis using Cons.IH [of "move_to_done t n s"] Cons.prems(3) by simp
  qed
qed

lemma process_failed_simps [simp]:
  "fst (process_failed t n m s) = False"
  "needs_action_folder (snd (process_failed t n m s)) = needs_action_folder s"
  "plans_folder (snd (process_failed t n m s)) = plans_folder s"
  "approved_folder (snd (process_failed t n m s)) = approved_folder s"
  "rejected_folder (snd (process_failed t n m s)) = rejected_folder s"
  "done_folder (snd (process_failed t n m s)) = done_folder s"
  "dir_writable (snd (process_failed t n m s)) = dir_writable s"
  "vault_path (snd (process_failed t n m s)) = vault_path s"
  "processed_files (snd (process_failed t n m s)) = processed_files s"
  by (simp_all add: process_failed_def)

lemma process_succeeded_simps [simp]:
  "fst (process_succeeded t n s) = True"
  "needs_action_folder (snd (process_succeeded t n s)) = needs_action_folder s"
  "plans_folder (snd (process_succeeded t n s)) = plans_folder s"
  "approved_folder (snd (process_succeeded t n s)) = approved_folder s"
  "rejected_folder (snd (process_succeeded t n s)) = rejected_folder s"
  "done_folder (snd (process_succeeded t n s)) = done_folder s"
  "dir_writable (snd (process_succeeded t n s)) = dir_writable s"
  "vault_path (snd (process_succeeded t n s)) = vault_path s"
  "processed_files (snd (process_succeeded t n s)) = processed_files s"
  by (simp_all add: process_succeeded_def)

lemma write_text_other:
  "write_text ok t n d fld = Some fld' \<Longrightarrow> k \<noteq> n \<Longrightarrow> map_of fld' k = map_of fld k"
  by (auto simp: write_text_def update_conv' split: option.splits if_splits)

lemma in_keys: "map_of fld n = Some f \<Longrightarrow> n \<in> fst ` set fld"
  by (metis domI dom_map_of_conv_image_fst)

lemma update_status_fst: "fst (update_status t n s) = readable_action s n"
proof (cases "map_of (needs_action_folder s) n")
  case None then show ?thesis by (simp add: update_status_def readable_action_def)
next
  case (Some f)
  then show ?thesis
    by (cases "f_is_file f"; cases "f_readable f"; cases "f_writable f";
        cases "str_in ''status: pending'' (read_text f)")
       (simp_all add: update_status_def readable_action_def write_text_def)
qed

lemma update_status_frame [simp]:
  "plans_folder (snd (update_status t n s)) = plans_folder s"
  "approved_folder (snd (update_status t n s)) = approved_folder s"
  "rejected_folder (snd (update_status t n s)) = rejected_folder s"
  "done_folder (snd (update_status t n s)) = done_folder s"
  "dir_writable (snd (update_status t n s)) = dir_writable s"
  "vault_path (snd (update_status t n s)) = vault_path s"
  "processed_files (snd (update_status t n s)) = processed_files s"
  by (simp_all add: update_status_def split: option.splits)

lemma update_status_landing:
  assumes "map_of (needs_action_folder s) n = Some f"
  shows "needs_action_folder (snd (update_status t n s))
           = (if readable_action s n then AList.update n (mark_in_progress t f) (needs_action_folder s)
              else needs_action_folder s)"
  using assms
  by (cases "f_is_file f"; cases "f_readable f"; cases "f_writable f";
      cases "str_in ''status: pending'' (read_text f)")
     (simp_all add: update_status_def readable_action_def write_text_def mark_in_progress_def
        update_triv)

lemma update_status_landing_None:
  "map_of (needs_action_folder s) n = None \<Longrightarrow>
   needs_action_folder (snd (update_status t n s)) = needs_action_folder s"
  by (simp add: update_status_def)

lemma can_process_alt:
  "can_process E n s \<longleftrightarrow> which_claude E n \<noteq> NotFound \<and> plan_writable E n s \<and> readable_action s n"
  by (simp add: can_process_def plan_writable_def readable_action_def)

lemma readable_action_cong:
  "map_of (needs_action_folder s') n = map_of (needs_action_folder s) n \<Longrightarrow>
   readable_action s' n = readable_action s n"
  by (simp add: readable_action_def)

lemma plan_writable_cong:
  "dir_writable s' = dir_writable s \<Longrightarrow>
   map_of (plans_folder s') (plan_file_name (now E) n) = map_of (plans_folder s) (plan_file_name (now E) n) \<Longrightarrow>
   plan_writable E n s' = plan_writable E n s"
  by (simp add: plan_writable_def write_text_def split: option.splits)

lemma pwc_not_found:
  "which_claude E n = NotFound \<Longrightarrow>
   process_with_claude E n s
     = (False,
        log_action (now E) ''claude_process'' [(''file'', JStr (action_path s n))]
          ''skipped_claude_not_found''
          (o_log WARNING ''Claude command not found. Skipping processing.''
             (o_log INFO (''Processing with Claude: '' @ n) s)))"
  by (simp add: process_with_claude_def Let_def)

lemma pwc_no_plan:
  "which_claude E n \<noteq> NotFound \<Longrightarrow> \<not> plan_writable E n s \<Longrightarrow>
   process_with_claude E n s
     = process_failed (now E) n ''cannot write the plan file''
         (o_log INFO (''[SIMULATED] Claude would process: '' @ n)
            (o_log INFO (''Processing with Claude: '' @ n) s))"
  by (simp add: process_with_claude_def Let_def plan_writable_def)

lemma pwc_plan:
  "which_claude E n \<noteq> NotFound \<Longrightarrow>
   write_text (dir_writable s ''Plans'') (dt_posix (now E)) (plan_file_name (now E) n)
        (plan_content (now E) n) (plans_folder s) = Some plans \<Longrightarrow>
   process_with_claude E n s
     = update_status (now E) n
         ((o_log INFO (''[SIMULATED] Claude would process: '' @ n)
            (o_log INFO (''Processing with Claude: '' @ n) s))\<lparr>plans_folder := plans\<rparr>)"
  by (simp add: process_with_claude_def Let_def)

lemma pwc_cases:
  obtains (not_found) "which_claude E n = NotFound"
  | (no_plan) "which_claude E n \<noteq> NotFound" "\<not> plan_writable E n s"
  | (plan) plans where "which_claude E n \<noteq> NotFound" "plan_writable E n s"
      "write_text (dir_writable s ''Plans'') (dt_posix (now E)) (plan_file_name (now E) n)
        (plan_content (now E) n) (plans_folder s) = Some plans"
  unfolding plan_writable_def by blast

lemma process_with_claude_fst: "fst (process_with_claude E n s) = can_process E n s"
proof (cases rule: pwc_cases [where E = E and n = n and s = s])
  case not_found then show ?thesis by (simp add: pwc_not_found can_process_alt)
next
  case no_plan then show ?thesis by (simp add: pwc_no_plan can_process_alt)
next
  case (plan plans)
  then show ?thesis
    by (simp add: pwc_plan can_process_alt update_status_fst readable_action_def)
qed

lemma process_with_claude_frame [simp]:
  "approved_folder (snd (process_with_claude E n s)) = approved_folder s"
  "rejected_folder (snd (process_with_claude E n s)) = rejected_folder s"
  "done_folder (snd (process_with_claude E n s)) = done_folder s"
  "dir_writable (snd (process_with_claude E n s)) = dir_writable s"
  "vault_path (snd (process_with_claude E n s)) = vault_path s"
  "processed_files (snd (process_with_claude E n s)) = processed_files s"
  by (cases rule: pwc_cases [where E = E and n = n and s = s]; simp add: pwc_not_found pwc_no_plan pwc_plan)+

lemma process_with_claude_plans:
  "k \<noteq> plan_file_name (now E) n \<Longrightarrow>
   map_of (plans_folder (snd (process_with_claude E n s))) k = map_of (plans_folder s) k"
proof (cases rule: pwc_cases [where E = E and n = n and s = s])
  case not_found then show ?thesis by (simp add: pwc_not_found)
next
  case no_plan then show ?thesis by (simp add: pwc_no_plan)
next
  case (plan plans)
  assume "k \<noteq> plan_file_name (now E) n"
  with plan show ?thesis by (simp add: pwc_plan write_text_other [OF plan(3)])
qed

lemma process_with_claude_landing:
  assumes "map_of (needs_action_folder s) n = Some f"
  shows "needs_action_folder (snd (process_with_claude E n s))
           = (if can_process E n s then AList.update n (mark_in_progress (now E) f) (needs_action_folder s)
              else needs_action_folder s)"
proof (cases rule: pwc_cases [where E = E and n = n and s = s])
  case not_found then show ?thesis by (simp add: pwc_not_found can_process_alt)
next
  case no_plan then show ?thesis by (simp add: pwc_no_plan can_process_alt)
next
  case (plan plans)
  let ?s3 = "(o_log INFO (''[SIMULATED] Claude would process: '' @ n)
            (o_log INFO (''Processing with Claude: '' @ n) s))\<lparr>plans_folder := plans\<rparr>"
  have l: "needs_action_folder ?s3 = needs_action_folder s" by simp
  have r: "readable_action ?s3 n = readable_action s n" by (simp add: readable_action_def)
  have m: "map_of (needs_action_folder ?s3) n = Some f" using assms by simp
  show ?thesis
    unfolding pwc_plan [OF plan(1,3)] update_status_landing [OF m] l r
    using plan by (simp add: can_process_alt)
qed

lemma process_with_claude_landing_None:
  "map_of (needs_action_folder s) n = None \<Longrightarrow>
   needs_action_folder (snd (process_with_claude E n s)) = needs_action_folder s"
  by (cases rule: pwc_cases [where E = E and n = n and s = s])
     (simp_all add: pwc_not_found pwc_no_plan pwc_plan update_status_landing_None)

lemma process_with_claude_keys:
  "map fst (needs_action_folder (snd (process_with_claude E n s))) = map fst (needs_action_folder s)"
proof (cases "map_of (needs_action_folder s) n")
  case None then show ?thesis by (simp add: process_with_claude_landing_None)
next
  case (Some f)
  then show ?thesis using in_keys [OF Some] by (simp add: process_with_claude_landing update_keys)
qed

lemma process_with_claude_other:
  "k \<noteq> n \<Longrightarrow>
   map_of (needs_action_folder (snd (process_with_claude E n s))) k = map_of (needs_action_folder s) k"
  by (cases "map_of (needs_action_folder s) n")
     (simp_all add: process_with_claude_landing_None process_with_claude_landing update_conv')

lemma path_stem_suffix: "path_stem n @ path_suffix n = n"
  by (simp add: path_stem_def path_suffix_def split: option.splits)

lemma plan_name_inj:
  assumes "path_suffix a = ''.md''" "path_suffix b = ''.md''"
    and "plan_file_name t a = plan_file_name t b"
  shows "a = b"
proof -
  from assms(3) have "path_stem a = path_stem b" by (simp add: plan_file_name_def)
  then show ?thesis using path_stem_suffix [of a] path_stem_suffix [of b] assms(1,2) by simp
qed

lemma action_path_inj [simp]: "action_path s a = action_path s b \<longleftrightarrow> a = b"
  by (simp add: action_path_def path_join_def)

lemma action_path_cong: "vault_path s' = vault_path s \<Longrightarrow> action_path s' n = action_path s n"
  by (simp add: action_path_def)

lemma process_pending_Cons:
  "process_pending E (n # rest) s =
     (if action_path s n \<in> processed_files s then process_pending E rest s
      else process_pending E rest (handled E n s))"
proof -
  obtain ok s' where r: "process_with_claude E n s = (ok, s')" by (cases "process_with_claude E n s")
  have ok: "ok = can_process E n s" using process_with_claude_fst [of E n s] r by simp
  have pf: "processed_files s' = processed_files s"
    using process_with_claude_frame(6) [of E n s] r by simp
  show ?thesis by (simp add: handled_def r ok pf)
qed

declare process_pending.simps(2) [simp del]

lemma handled_frame [simp]:
  "approved_folder (handled E n s) = approved_folder s"
  "rejected_folder (handled E n s) = rejected_folder s"
  "done_folder (handled E n s) = done_folder s"
  "dir_writable (handled E n s) = dir_writable s"
  "vault_path (handled E n s) = vault_path s"
  "map fst (needs_action_folder (handled E n s)) = map fst (needs_action_folder s)"
  by (simp_all add: handled_def process_with_claude_keys)

lemma handled_processed:
  "processed_files (handled E n s)
     = (if can_process E n s then insert (action_path s n) (processed_files s) else processed_files s)"
  by (simp add: handled_def)

lemma handled_other:
  "k \<noteq> n \<Longrightarrow> map_of (needs_action_folder (handled E n s)) k = map_of (needs_action_folder s) k"
  by (simp add: handled_def process_with_claude_other)

lemma handled_landing:
  "map_of (needs_action_folder s) n = Some f \<Longrightarrow>
   map_of (needs_action_folder (handled E n s)) n
     = Some (if can_process E n s then mark_in_progress (now E) f else f)"
  by (simp add: handled_def process_with_claude_landing update_conv')

lemma handled_plans:
  "k \<noteq> plan_file_name (now E) n \<Longrightarrow>
   map_of (plans_folder (handled E n s)) k = map_of (plans_folder s) k"
  by (simp add: handled_def process_with_claude_plans)

lemma can_process_handled:
  assumes "target \<noteq> n" "path_suffix target = ''.md''" "path_suffix n = ''.md''"
  shows "can_process E target (handled E n s) = can_process E target s"
proof -
  have "plan_file_name (now E) target \<noteq> plan_file_name (now E) n"
    using plan_name_inj [OF assms(2,3)] assms(1) by blast
  then have "plan_writable E target (handled E n s) = plan_writable E target s"
    by (intro plan_writable_cong) (simp_all add: handled_plans)
  moreover have "readable_action (handled E n s) target = readable_action s target"
    by (intro readable_action_cong) (simp add: handled_other assms(1))
  ultimately show ?thesis by (simp add: can_process_alt)
qed

lemma process_pending_frame [simp]:
  "approved_folder (process_pending E names s) = approved_folder s"
  "rejected_folder (process_pending E names s) = rejected_folder s"
  "done_folder (process_pending E names s) = done_folder s"
  "dir_writable (process_pending E names s) = dir_writable s"
  "vault_path (process_pending E names s) = vault_path s"
  "map fst (needs_action_folder (process_pending E names s)) = map fst (needs_action_folder s)"
  by (induction names arbitrary: s; simp add: process_pending_Cons)+

lemma process_pending_grows: "processed_files s \<subseteq> processed_files (process_pending E names s)"
proof (induction names arbitrary: s)
  case Nil show ?case by simp
next
  case (Cons n names)
  have "processed_files s \<subseteq> processed_files (handled E n s)" by (auto simp: handled_processed)
  then show ?case using Cons [of s] Cons [of "handled E n s"]
    by (auto simp: process_pending_Cons)
qed

lemma process_pending_other:
  "target \<notin> set names \<Longrightarrow>
   map_of (needs_action_folder (process_pending E names s)) target
       = map_of (needs_action_folder s) target
   \<and> (action_path s target \<in> processed_files (process_pending E names s)
        \<longleftrightarrow> action_path s target \<in> processed_files s)"
proof (induction names arbitrary: s)
  case Nil show ?case by simp
next
  case (Cons n names)
  then have t: "target \<noteq> n" "target \<notin> set names" by auto
  have p: "action_path (handled E n s) target = action_path s target"
    by (rule action_path_cong) simp
  show ?case
    using Cons.IH [OF t(2), of s] Cons.IH [OF t(2), of "handled E n s"] t(1) p
    by (simp add: process_pending_Cons handled_other handled_processed)
qed

lemma process_pending_target:
  assumes "distinct names" "\<forall>n \<in> set names. path_suffix n = ''.md''" "target \<in> set names"
    and "action_path s target \<notin> processed_files s"
    and "map_of (needs_action_folder s) target = Some f"
  shows "map_of (needs_action_folder (process_pending E names s)) target
           = Some (if can_process E target s then mark_in_progress (now E) f else f)
         \<and> (action_path s target \<in> processed_files (process_pending E names s)
              \<longleftrightarrow> can_process E target s)"
  using assms
proof (induction names arbitrary: s)
  case Nil then show ?case by simp
next
  case (Cons n names)
  show ?case
  proof (cases "target = n")
    case True
    then have nt: "target \<notin> set names" using Cons.prems(1) by simp
    have p: "action_path (handled E n s) target = action_path s target"
      by (rule action_path_cong) simp
    from process_pending_other [OF nt, of E "handled E n s"] p True Cons.prems(4,5)
    show ?thesis
      by (simp add: process_pending_Cons handled_landing handled_processed)
  next
    case False
    then have tn: "target \<in> set names" using Cons.prems(3) by simp
    have d: "distinct names" "\<forall>n \<in> set names. path_suffix n = ''.md''"
      using Cons.prems(1,2) by simp_all
    show ?thesis
    proof (cases "action_path s n \<in> processed_files s")
      case True
      then show ?thesis using Cons.IH [OF d tn Cons.prems(4,5)]
        by (simp add: process_pending_Cons)
    next
      case np: False
      have p: "action_path (handled E n s) target = action_path s target"
        by (rule action_path_cong) simp
      have a: "action_path (handled E n s) target \<notin> processed_files (handled E n s)"
        using Cons.prems(4) False by (simp add: p handled_processed)
      have b: "map_of (needs_action_folder (handled E n s)) target = Some f"
        using Cons.prems(5) False by (simp add: handled_other)
      have c: "can_process E target (handled E n s) = can_process E target s"
        using Cons.prems(2) tn False by (intro can_process_handled) simp_all
      from Cons.IH [OF d tn a b] show ?thesis
        using np by (simp add: process_pending_Cons p c)
    qed
  qed
qed

lemma replace_contains: "p \<noteq> [] \<Longrightarrow> str_in p s \<Longrightarrow> str_in v (replace p v s)"
proof (induction s rule: length_induct)
  case (1 s)
  show ?case
  proof (cases s)
    case Nil then show ?thesis using 1 by simp
  next
    case (Cons c cs)
    show ?thesis
    proof (cases "prefix p s")
      case True
      then have "replace p v s = v @ replace p v (drop (length p) s)" using Cons 1(2) by simp
      then show ?thesis by (simp add: str_in_prefix)
    next
      case False
      then have "str_in p cs" using 1(3) Cons by simp
      then have "str_in v (replace p v cs)" using 1 Cons by simp
      then show ?thesis using False Cons 1(2) by simp
    qed
  qed
qed

lemma md_files_set:
  "set (md_files_by_mtime fld) = fst ` {p \<in> set fld. is_md_file p}"
  by (simp add: md_files_by_mtime_def)

lemma md_files_distinct:
  "distinct (map fst fld) \<Longrightarrow> distinct (md_files_by_mtime fld)"
proof -
  assume "distinct (map fst fld)"
  then have "distinct (map fst (filter is_md_file fld))" by (rule distinct_map_filter)
  then show ?thesis by (simp add: md_files_by_mtime_def distinct_map)
qed

lemma md_files_suffix: "n \<in> set (md_files_by_mtime fld) \<Longrightarrow> path_suffix n = ''.md''"
  by (auto simp: md_files_set is_md_file_def)

lemma can_process_cong:
  "dir_writable s' = dir_writable s \<Longrightarrow> plans_folder s' = plans_folder s \<Longrightarrow>
   needs_action_folder s' = needs_action_folder s \<Longrightarrow> can_process E n s' = can_process E n s"
  by (simp add: can_process_def)

lemma cycle_pending:
  "\<exists>sP. needs_action_folder sP = needs_action_folder s \<and> plans_folder sP = plans_folder s
        \<and> dir_writable sP = dir_writable s \<and> vault_path sP = vault_path s
        \<and> processed_files sP = processed_files s
        \<and> needs_action_folder (cycle E s)
             = needs_action_folder (process_pending E (get_pending_files s) sP)
        \<and> processed_files (cycle E s)
             = processed_files (process_pending E (get_pending_files s) sP)"
proof (cases "get_pending_files s = []")
  case True
  then show ?thesis
    by (intro exI [of _ "update_dashboard (now E) s"])
       (simp add: cycle_def Let_def get_pending_files_def get_approved_files_def)
next
  case False
  then show ?thesis
    by (intro exI [of _ "o_log INFO (''Found '' @ str_nat (length (get_pending_files s))
                                      @ '' pending file(s)'') (update_dashboard (now E) s)"])
       (simp add: cycle_def Let_def get_pending_files_def get_approved_files_def)
qed

lemma cycle_moves:
  "\<exists>sA. approved_folder sA = approved_folder s \<and> done_folder sA = done_folder s
        \<and> movable sA = movable s \<and> dir_writable sA = dir_writable s
        \<and> map fst (needs_action_folder sA) = map fst (needs_action_folder s)
        \<and> rejected_folder sA = rejected_folder s
        \<and> approved_folder (cycle E s)
             = approved_folder (fold (move_to_done (now E)) (get_approved_files s) sA)
        \<and> done_folder (cycle E s)
             = done_folder (fold (move_to_done (now E)) (get_approved_files s) sA)
        \<and> map fst (needs_action_folder (cycle E s)) = map fst (needs_action_folder s)
        \<and> rejected_folder (cycle E s) = rejected_folder s"
proof -
  define s2 where "s2 = (if get_pending_files (update_dashboard (now E) s) \<noteq> []
                then process_pending E (get_pending_files (update_dashboard (now E) s))
                       (o_log INFO (''Found '' @ str_nat (length (get_pending_files (update_dashboard (now E) s))) @ '' pending file(s)'') (update_dashboard (now E) s))
                else update_dashboard (now E) s)"
  have f: "approved_folder s2 = approved_folder s" "done_folder s2 = done_folder s"
    "dir_writable s2 = dir_writable s" "rejected_folder s2 = rejected_folder s"
    "map fst (needs_action_folder s2) = map fst (needs_action_folder s)"
    by (simp_all add: s2_def)
  have c: "cycle E s = save_state (now E)
             (if get_approved_files s2 \<noteq> []
              then fold (move_to_done (now E)) (get_approved_files s2)
                     (o_log INFO (''Found '' @ str_nat (length (get_approved_files s2))
                                      @ '' approved file(s) ready for action'') s2)
              else s2)"
    by (simp add: cycle_def Let_def s2_def)
  have g: "get_approved_files s2 = get_approved_files s" by (simp add: get_approved_files_def f)
  show ?thesis
  proof (cases "get_approved_files s = []")
    case True
    then show ?thesis using f unfolding c g
      by (intro exI [of _ s2]) (simp add: movable_def)
  next
    case False
    then show ?thesis using f unfolding c g
      by (intro exI [of _ "o_log INFO (''Found '' @ str_nat (length (get_approved_files s))
                                      @ '' approved file(s) ready for action'') s2"])
         (simp add: movable_def)
  qed
qed

lemma cycle_writable [simp]: "dir_writable (cycle E s) = dir_writable s"
proof -
  define s2 where "s2 = (if get_pending_files (update_dashboard (now E) s) \<noteq> []
                then process_pending E (get_pending_files (update_dashboard (now E) s))
                       (o_log INFO (''Found '' @ str_nat (length (get_pending_files (update_dashboard (now E) s))) @ '' pending file(s)'') (update_dashboard (now E) s))
                else update_dashboard (now E) s)"
  have f: "dir_writable s2 = dir_writable s" by (simp add: s2_def)
  have c: "cycle E s = save_state (now E)
             (if get_approved_files s2 \<noteq> []
              then fold (move_to_done (now E)) (get_approved_files s2)
                     (o_log INFO (''Found '' @ str_nat (length (get_approved_files s2))
                                      @ '' approved file(s) ready for action'') s2)
              else s2)"
    by (simp add: cycle_def Let_def s2_def)
  show ?thesis unfolding c using f by simp
qed

lemma writable_reachable: "reachable s0 s \<Longrightarrow> dir_writable s = dir_writable s0"
  by (induction rule: reachable.induct) simp_all

lemma one_place_cycle:
  assumes o: "one_place s" and w: "dir_writable s ''Done'' \<longrightarrow> dir_writable s ''Approved''"
  shows "one_place (cycle E s)"
proof -
  obtain sA where sA: "approved_folder sA = approved_folder s" "done_folder sA = done_folder s"
      "dir_writable sA = dir_writable s"
      "map fst (needs_action_folder sA) = map fst (needs_action_folder s)"
      "rejected_folder sA = rejected_folder s"
      "approved_folder (cycle E s)
             = approved_folder (fold (move_to_done (now E)) (get_approved_files s) sA)"
      "done_folder (cycle E s)
             = done_folder (fold (move_to_done (now E)) (get_approved_files s) sA)"
      "map fst (needs_action_folder (cycle E s)) = map fst (needs_action_folder s)"
      "rejected_folder (cycle E s) = rejected_folder s"
    using cycle_moves [of s E] by blast
  have "one_place sA" using o sA(1,2,4,5) one_place_cong [of sA s] by simp
  moreover have "dir_writable sA ''Done'' \<longrightarrow> dir_writable sA ''Approved''" using w sA(3) by simp
  ultimately have "one_place (fold (move_to_done (now E)) (get_approved_files s) sA)"
    by (rule one_place_fold_move)
  moreover have "one_place (cycle E s)
                   = one_place (fold (move_to_done (now E)) (get_approved_files s) sA)"
    by (rule one_place_cong) (simp_all add: sA)
  ultimately show ?thesis by simp
qed

lemma one_place_reachable:
  "reachable s0 s \<Longrightarrow> one_place s0 \<Longrightarrow>
   dir_writable s0 ''Done'' \<longrightarrow> dir_writable s0 ''Approved'' \<Longrightarrow> one_place s"
proof (induction rule: reachable.induct)
  case (start s) then show ?case by simp
next
  case (step s0 s E)
  have "dir_writable s ''Done'' \<longrightarrow> dir_writable s ''Approved''"
    using writable_reachable [OF step.hyps] step.prems(2) by simp
  then show ?case using step by (simp add: one_place_cycle)
qed

lemma one_place_location: "one_place s \<Longrightarrow> length (location s name) \<le> 1"
  by (auto simp: one_place_def location_def)

lemma fold_move_blocked:
  "\<not> dir_writable s ''Done'' \<Longrightarrow> one_place s \<Longrightarrow>
   approved_folder (fold (move_to_done t) ns s) = approved_folder s
     \<and> done_folder (fold (move_to_done t) ns s) = done_folder s"
proof (induction ns arbitrary: s)
  case Nil show ?case by simp
next
  case (Cons n ns)
  have "map_of (approved_folder s) n = None
        \<or> (map_of (done_folder s) n = None \<and> \<not> dir_writable s ''Done'')"
    using Cons.prems approved_not_done [of s n] by (cases "map_of (approved_folder s) n") auto
  then have st: "approved_folder (move_to_done t n s) = approved_folder s
                 \<and> done_folder (move_to_done t n s) = done_folder s"
    by (rule move_to_done_stays)
  have "one_place (move_to_done t n s)"
    using Cons.prems(2) by (rule one_place_move) (simp add: Cons.prems(1))
  then show ?case using Cons.IH [of "move_to_done t n s"] Cons.prems(1) st by simp
qed

lemma in_keys_iff: "n \<in> fst ` set fld \<longleftrightarrow> map_of fld n \<noteq> None"
  by (simp add: map_of_eq_None_iff)

lemma cycle_location:
  assumes "one_place s" "dir_writable s ''Done'' \<longrightarrow> dir_writable s ''Approved''"
  shows "location (cycle E s) name = location s name
         \<or> (location s name = [InApproved] \<and> location (cycle E s) name = [InDone])"
proof -
  obtain sA where sA: "approved_folder sA = approved_folder s" "done_folder sA = done_folder s"
      "movable sA = movable s"
      "approved_folder (cycle E s)
             = approved_folder (fold (move_to_done (now E)) (get_approved_files s) sA)"
      "done_folder (cycle E s)
             = done_folder (fold (move_to_done (now E)) (get_approved_files s) sA)"
      "map fst (needs_action_folder (cycle E s)) = map fst (needs_action_folder s)"
      "rejected_folder (cycle E s) = rejected_folder s"
      "dir_writable sA = dir_writable s"
      "map fst (needs_action_folder sA) = map fst (needs_action_folder s)"
      "rejected_folder sA = rejected_folder s"
    using cycle_moves [of s E] by blast
  have oA: "one_place sA" using assms(1) sA(1,2,9,10) one_place_cong [of sA s] by simp
  have l: "(name \<in> fst ` set (needs_action_folder (cycle E s))) = (name \<in> fst ` set (needs_action_folder s))"
    using sA(6) by (metis set_map)
  show ?thesis
  proof (cases "name \<in> set (get_approved_files s) \<and> movable s")
    case False
    have "map_of (approved_folder (cycle E s)) name = map_of (approved_folder s) name
          \<and> map_of (done_folder (cycle E s)) name = map_of (done_folder s) name"
    proof (cases "movable s")
      case True
      then have "name \<notin> set (get_approved_files s)" using False by simp
      from fold_move_other [OF this, of "now E" sA] sA show ?thesis by simp
    next
      case False
      then have "\<not> dir_writable sA ''Done''" using assms(2) sA(8) by (auto simp: movable_def)
      from fold_move_blocked [OF this oA, of "now E" "get_approved_files s"] sA
      show ?thesis by simp
    qed
    then have "(name \<in> fst ` set (approved_folder (cycle E s))) = (name \<in> fst ` set (approved_folder s))"
      "(name \<in> fst ` set (done_folder (cycle E s))) = (name \<in> fst ` set (done_folder s))"
      by (simp_all only: in_keys_iff)
    then have "location (cycle E s) name = location s name"
      using l by (simp only: location_def sA(7))
    then show ?thesis by simp
  next
    case True
    then obtain f where f: "(name, f) \<in> set (approved_folder s)"
      by (auto simp: get_approved_files_def md_files_set)
    have d: "distinct (map fst (approved_folder s))" using assms(1) by (simp add: one_place_def)
    then have m: "map_of (approved_folder sA) name = Some f" using f sA(1) by simp
    have i: "name \<in> set (get_approved_files s)" and mv: "movable sA" using True sA(3) by simp_all
    from fold_move_moved [OF i m mv oA, of "now E"] sA
    have a: "map_of (approved_folder (cycle E s)) name = None"
      "map_of (done_folder (cycle E s)) name = Some f" by simp_all
    have n: "name \<in> fst ` set (approved_folder s)" using f by force
    then have "name \<notin> fst ` set (needs_action_folder s)" "name \<notin> fst ` set (rejected_folder s)"
      "name \<notin> fst ` set (done_folder s)"
      using assms(1) by (auto simp: one_place_def)
    then have "location s name = [InApproved]" using n by (simp add: location_def)
    moreover have "name \<notin> fst ` set (approved_folder (cycle E s))"
      "name \<in> fst ` set (done_folder (cycle E s))"
      using a by (simp_all only: in_keys_iff) simp_all
    then have "location (cycle E s) name = [InDone]"
      using l \<open>name \<notin> fst ` set (needs_action_folder s)\<close> \<open>name \<notin> fst ` set (rejected_folder s)\<close>
      by (simp add: location_def sA(7))
    ultimately show ?thesis by simp
  qed
qed

lemma cycle_relocates:
  assumes "one_place s" "(name, f) \<in> set (approved_folder s)" "path_suffix name = ''.md''"
    "f_is_file f" "dir_writable s ''Approved''" "dir_writable s ''Done''"
  shows "map_of (approved_folder (cycle E s)) name = None
         \<and> map_of (done_folder (cycle E s)) name = Some f"
proof -
  obtain sA where sA: "approved_folder sA = approved_folder s" "done_folder sA = done_folder s"
      "movable sA = movable s"
      "approved_folder (cycle E s)
             = approved_folder (fold (move_to_done (now E)) (get_approved_files s) sA)"
      "done_folder (cycle E s)
             = done_folder (fold (move_to_done (now E)) (get_approved_files s) sA)"
      "map fst (needs_action_folder sA) = map fst (needs_action_folder s)"
      "rejected_folder sA = rejected_folder s"
    using cycle_moves [of s E] by blast
  have oA: "one_place sA" using assms(1) sA(1,2,6,7) one_place_cong [of sA s] by simp
  have "distinct (map fst (approved_folder s))" using assms(1) by (simp add: one_place_def)
  then have m: "map_of (approved_folder sA) name = Some f" using assms(2) sA(1) by simp
  have i: "name \<in> set (get_approved_files s)"
    using assms(2,3,4) by (force simp: get_approved_files_def md_files_set is_md_file_def)
  have "movable sA" using assms(5,6) sA(3) by (simp add: movable_def)
  from fold_move_moved [OF i m this oA, of "now E"] sA show ?thesis by simp
qed

lemma md_files_mem:
  "(name, f) \<in> set fld \<Longrightarrow> is_md_file (name, f) \<Longrightarrow> name \<in> set (md_files_by_mtime fld)"
  by (force simp: md_files_set)

lemma cycle_copies:
  assumes "get_approved_files s = [name]" "map_of (approved_folder s) name = Some f"
    and "map_of (done_folder s) name = None"
    and "\<not> dir_writable s ''Approved''" "dir_writable s ''Done''" "f_readable f"
  shows "approved_folder (cycle E s) = approved_folder s
         \<and> done_folder (cycle E s) = AList.update name f (done_folder s)"
proof -
  obtain sA where sA: "approved_folder sA = approved_folder s" "done_folder sA = done_folder s"
      "dir_writable sA = dir_writable s"
      "approved_folder (cycle E s)
             = approved_folder (fold (move_to_done (now E)) (get_approved_files s) sA)"
      "done_folder (cycle E s)
             = done_folder (fold (move_to_done (now E)) (get_approved_files s) sA)"
    using cycle_moves [of s E] by blast
  have "approved_folder (move_to_done (now E) name sA) = approved_folder sA
        \<and> done_folder (move_to_done (now E) name sA) = AList.update name f (done_folder sA)"
    by (rule move_to_done_copied) (simp_all add: sA assms)
  then show ?thesis by (simp add: sA assms(1))
qed

lemma cycle_refused:
  assumes "get_approved_files s = [name]" "map_of (approved_folder s) name = Some f"
    and "map_of (done_folder s) name = None"
    and "dir_writable s ''Approved''" "\<not> dir_writable s ''Done''"
  shows "approved_folder (cycle E s) = approved_folder s
         \<and> done_folder (cycle E s) = done_folder s"
proof -
  obtain sA where sA: "approved_folder sA = approved_folder s" "done_folder sA = done_folder s"
      "dir_writable sA = dir_writable s"
      "approved_folder (cycle E s)
             = approved_folder (fold (move_to_done (now E)) (get_approved_files s) sA)"
      "done_folder (cycle E s)
             = done_folder (fold (move_to_done (now E)) (get_approved_files s) sA)"
    using cycle_moves [of s E] by blast
  have "approved_folder (move_to_done (now E) name sA) = approved_folder sA
        \<and> done_folder (move_to_done (now E) name sA) = done_folder sA"
    by (rule move_to_done_stays) (simp add: sA assms)
  then show ?thesis by (simp add: sA assms(1))
qed

text \<open>
  C2, as stated, fails. In a vault whose approved folder refuses the removal of an entry
  while the done folder accepts a new one, the rename of \<open>shutil.move\<close> fails, the copy is
  made and the removal of the source raises: after the cycle the record is in both
  folders. And in a vault whose done folder refuses a new entry, the record of the
  approved folder is not relocated.
\<close>

theorem approved_record_in_two_folders:
  "one_place (sample_vault\<lparr>dir_writable := (\<lambda>name. name \<noteq> ''Approved'')\<rparr>)
   \<and> location (cycle sample_env (sample_vault\<lparr>dir_writable := (\<lambda>name. name \<noteq> ''Approved'')\<rparr>))
        ''FILE_d.md'' = [InApproved, InDone]
   \<and> map_of (approved_folder
               (cycle sample_env (sample_vault\<lparr>dir_writable := (\<lambda>name. name \<noteq> ''Done'')\<rparr>)))
        ''FILE_d.md'' = Some (regular ''status: in_progress'' 5)
   \<and> map_of (done_folder
               (cycle sample_env (sample_vault\<lparr>dir_writable := (\<lambda>name. name \<noteq> ''Done'')\<rparr>)))
        ''FILE_d.md'' = None"
proof -
  let ?A = "sample_vault\<lparr>dir_writable := (\<lambda>name. name \<noteq> ''Approved'')\<rparr>"
  let ?D = "sample_vault\<lparr>dir_writable := (\<lambda>name. name \<noteq> ''Done'')\<rparr>"
  let ?f = "regular ''status: in_progress'' 5"
  have o: "one_place ?A" by (simp add: one_place_def sample_vault_def)
  have gA: "get_approved_files ?A = [''FILE_d.md'']"
    by (simp add: get_approved_files_def md_files_by_mtime_def is_md_file_def path_suffix_def
          sample_vault_def regular_def)
  have gD: "get_approved_files ?D = [''FILE_d.md'']"
    by (simp add: get_approved_files_def md_files_by_mtime_def is_md_file_def path_suffix_def
          sample_vault_def regular_def)
  have a: "approved_folder (cycle sample_env ?A) = approved_folder ?A
           \<and> done_folder (cycle sample_env ?A) = AList.update ''FILE_d.md'' ?f (done_folder ?A)"
    by (rule cycle_copies [OF gA]) (simp_all add: sample_vault_def regular_def)
  have l: "map fst (needs_action_folder (cycle sample_env ?A)) = map fst (needs_action_folder ?A)"
    "rejected_folder (cycle sample_env ?A) = rejected_folder ?A"
    using cycle_moves [of ?A sample_env] by auto
  have "fst ` set (needs_action_folder (cycle sample_env ?A)) = fst ` set (needs_action_folder ?A)"
    using l(1) by (metis set_map)
  then have 1: "location (cycle sample_env ?A) ''FILE_d.md'' = [InApproved, InDone]"
    using a l(2) by (simp add: location_def sample_vault_def)
  have d: "approved_folder (cycle sample_env ?D) = approved_folder ?D
           \<and> done_folder (cycle sample_env ?D) = done_folder ?D"
    by (rule cycle_refused [OF gD, of ?f]) (simp_all add: sample_vault_def)
  from o 1 d show ?thesis by (simp add: sample_vault_def)
qed

text \<open>
  C2, amended: take the states that cycles of the orchestrator reach from a vault in which
  no name occurs twice in the folders of action records (landing, approved, rejected,
  done) and whose approved folder accepts the removal of entries if its done folder
  accepts new ones. In every such state no name occurs twice, so a record is in at most
  one of these folders; a move to the done folder that returns takes the record out of the
  approved folder and puts it, unchanged, into the done folder; a cycle leaves every
  record in its folder or takes it from the approved to the done folder; and after a cycle
  every \<open>.md\<close> file of the approved folder is in the done folder and no longer in the
  approved folder, when the done folder accepts new entries.
\<close>

theorem records_in_one_place:
  assumes "one_place s0"
    and "dir_writable s0 ''Done'' \<longrightarrow> dir_writable s0 ''Approved''"
    and "reachable s0 s"
  shows "one_place s
         \<and> (\<forall>name. length (location s name) \<le> 1)
         \<and> (\<forall>name f. map_of (approved_folder s) name = Some f \<and> fst (shutil_move name f s)
              \<longrightarrow> map_of (approved_folder (move_to_done t name s)) name = None
                  \<and> map_of (done_folder (move_to_done t name s)) name = Some f)
         \<and> (\<forall>name. location (cycle E s) name = location s name
                \<or> (location s name = [InApproved] \<and> location (cycle E s) name = [InDone]))
         \<and> (\<forall>name f. (name, f) \<in> set (approved_folder s) \<and> path_suffix name = ''.md''
                \<and> f_is_file f \<and> dir_writable s ''Done''
              \<longrightarrow> map_of (approved_folder (cycle E s)) name = None
                  \<and> map_of (done_folder (cycle E s)) name = Some f)"
proof -
  have o: "one_place s" using assms(3,1,2) by (rule one_place_reachable)
  have w: "dir_writable s ''Done'' \<longrightarrow> dir_writable s ''Approved''"
    using writable_reachable [OF assms(3)] assms(2) by simp
  have 1: "\<forall>name. length (location s name) \<le> 1" using one_place_location [OF o] by blast
  have 2: "map_of (approved_folder (move_to_done t name s)) name = None
           \<and> map_of (done_folder (move_to_done t name s)) name = Some f"
    if m: "map_of (approved_folder s) name = Some f" and r: "fst (shutil_move name f s)"
    for name f
  proof -
    have fresh: "map_of (done_folder s) name = None" using o m by (rule approved_not_done)
    have "movable s" using r by (simp add: shutil_move_fresh [OF fresh] movable_def split: if_splits)
    from move_to_done_moved [OF m fresh this, of t] show ?thesis
      by (simp add: delete_conv update_conv')
  qed
  have 3: "\<forall>name. location (cycle E s) name = location s name
                \<or> (location s name = [InApproved] \<and> location (cycle E s) name = [InDone])"
    using cycle_location [OF o w] by blast
  have 4: "\<forall>name f. (name, f) \<in> set (approved_folder s) \<and> path_suffix name = ''.md''
                \<and> f_is_file f \<and> dir_writable s ''Done''
              \<longrightarrow> map_of (approved_folder (cycle E s)) name = None
                  \<and> map_of (done_folder (cycle E s)) name = Some f"
    using cycle_relocates [OF o] w by blast
  from o 1 2 3 4 show ?thesis by blast
qed

theorem records_in_one_place_witness:
  "one_place (cycle sample_env sample_vault)
   \<and> map_of (approved_folder (cycle sample_env (cycle sample_env sample_vault))) ''FILE_d.md'' = None
   \<and> map_of (approved_folder (cycle sample_env sample_vault)) ''FILE_d.md'' = None
   \<and> map_of (done_folder (cycle sample_env sample_vault)) ''FILE_d.md''
       = Some (regular ''status: in_progress'' 5)"
proof -
  have h1: "one_place sample_vault" by (simp add: one_place_def sample_vault_def)
  have h0: "dir_writable sample_vault ''Done'' \<longrightarrow> dir_writable sample_vault ''Approved''"
    by (simp add: sample_vault_def)
  have h2: "reachable sample_vault sample_vault" by (rule reachable.start)
  have h3: "reachable sample_vault (cycle sample_env sample_vault)"
    by (rule reachable.step [OF h2])
  have h4: "(''FILE_d.md'', regular ''status: in_progress'' 5) \<in> set (approved_folder sample_vault)
            \<and> path_suffix ''FILE_d.md'' = ''.md'' \<and> f_is_file (regular ''status: in_progress'' 5)
            \<and> dir_writable sample_vault ''Done''"
    by (simp add: sample_vault_def regular_def path_suffix_def)
  from records_in_one_place [OF h1 h0 h2, of sample_time sample_env] h4
  have a: "map_of (approved_folder (cycle sample_env sample_vault)) ''FILE_d.md'' = None
     \<and> map_of (done_folder (cycle sample_env sample_vault)) ''FILE_d.md''
       = Some (regular ''status: in_progress'' 5)" by blast
  from records_in_one_place [OF h1 h0 h3, of sample_time sample_env]
  have b: "one_place (cycle sample_env sample_vault)"
    and c: "location (cycle sample_env (cycle sample_env sample_vault)) ''FILE_d.md''
              = location (cycle sample_env sample_vault) ''FILE_d.md''
            \<or> (location (cycle sample_env sample_vault) ''FILE_d.md'' = [InApproved]
               \<and> location (cycle sample_env (cycle sample_env sample_vault)) ''FILE_d.md'' = [InDone])"
    by blast+
  have "''FILE_d.md'' \<notin> fst ` set (approved_folder (cycle sample_env sample_vault))"
    using a by (simp only: in_keys_iff) simp
  then have "InApproved \<notin> set (location (cycle sample_env sample_vault) ''FILE_d.md'')"
    by (simp add: location_def)
  with c have "InApproved \<notin> set (location (cycle sample_env (cycle sample_env sample_vault)) ''FILE_d.md'')"
    by auto
  then have "''FILE_d.md'' \<notin> fst ` set (approved_folder (cycle sample_env (cycle sample_env sample_vault)))"
    by (auto simp: location_def split: if_splits)
  then have "map_of (approved_folder (cycle sample_env (cycle sample_env sample_vault))) ''FILE_d.md'' = None"
    by (simp only: in_keys_iff) simp
  with a b show ?thesis by blast
qed

lemma cycle_grows: "processed_files s \<subseteq> processed_files (cycle E s)"
proof -
  obtain sP where "processed_files sP = processed_files s"
      "processed_files (cycle E s)
             = processed_files (process_pending E (get_pending_files s) sP)"
    using cycle_pending [of s E] by blast
  then show ?thesis using process_pending_grows [of sP E "get_pending_files s"] by simp
qed

lemma processed_reachable: "reachable a b \<Longrightarrow> processed_files a \<subseteq> processed_files b"
proof (induction rule: reachable.induct)
  case (start s) show ?case by simp
next
  case (step s0 s E)
  then show ?case using cycle_grows [of s E] by blast
qed

text \<open>
  C4: take a landing folder with distinct names and a pending file of it whose path is not
  in the processed set. If the processing step succeeds for it, then after the cycle every
  \<open>status: pending\<close> of the file reads \<open>status: in_progress\<close> and its path is in the
  processed set; if the step fails (the tool is reported missing, or a file cannot be
  written or read), the file is as it was, its path is not in the processed set and the file
  is again among the pending files, so the next cycle tries it again. The processed set
  only grows, in the cycle and in all cycles after it.
\<close>

theorem pending_record_processing:
  assumes "distinct (map fst (needs_action_folder s))"
    and "name \<in> set (get_pending_files s)"
    and "action_path s name \<notin> processed_files s"
    and "map_of (needs_action_folder s) name = Some f"
  shows "(fst (process_with_claude E name s) \<longrightarrow>
            map_of (needs_action_folder (cycle E s)) name = Some (mark_in_progress (now E) f)
            \<and> (str_in ''status: pending'' (f_data f) \<longrightarrow>
                 str_in ''status: in_progress'' (f_data (mark_in_progress (now E) f)))
            \<and> action_path s name \<in> processed_files (cycle E s))
         \<and> (\<not> fst (process_with_claude E name s) \<longrightarrow>
            map_of (needs_action_folder (cycle E s)) name = Some f
            \<and> action_path s name \<notin> processed_files (cycle E s)
            \<and> name \<in> set (get_pending_files (cycle E s)))
         \<and> processed_files s \<subseteq> processed_files (cycle E s)
         \<and> (\<forall>s'. reachable (cycle E s) s' \<longrightarrow> processed_files (cycle E s) \<subseteq> processed_files s')"
proof -
  obtain sP where sP: "needs_action_folder sP = needs_action_folder s" "plans_folder sP = plans_folder s"
      "dir_writable sP = dir_writable s" "vault_path sP = vault_path s"
      "processed_files sP = processed_files s"
      "needs_action_folder (cycle E s)
             = needs_action_folder (process_pending E (get_pending_files s) sP)"
      "processed_files (cycle E s)
             = processed_files (process_pending E (get_pending_files s) sP)"
    using cycle_pending [of s E] by blast
  have p: "action_path sP name = action_path s name" by (rule action_path_cong) (rule sP(4))
  have c: "can_process E name sP = can_process E name s"
    by (rule can_process_cong) (simp_all add: sP)
  have d: "distinct (get_pending_files s)"
    unfolding get_pending_files_def using assms(1) by (rule md_files_distinct)
  have m: "\<forall>n \<in> set (get_pending_files s). path_suffix n = ''.md''"
    by (simp add: get_pending_files_def md_files_suffix)
  have a: "action_path sP name \<notin> processed_files sP" using assms(3) by (simp add: p sP)
  have b: "map_of (needs_action_folder sP) name = Some f" using assms(4) by (simp add: sP)
  from process_pending_target [OF d m assms(2) a b, of E]
  have r: "map_of (needs_action_folder (cycle E s)) name
             = Some (if can_process E name s then mark_in_progress (now E) f else f)"
     "action_path s name \<in> processed_files (cycle E s) \<longleftrightarrow> can_process E name s"
    by (simp_all add: sP p c)
  have g: "processed_files s \<subseteq> processed_files (cycle E s)"
    using process_pending_grows [of sP E "get_pending_files s"] by (simp add: sP)
  have k: "str_in ''status: pending'' (f_data f) \<longrightarrow>
             str_in ''status: in_progress'' (f_data (mark_in_progress (now E) f))"
  proof
    assume "str_in ''status: pending'' (f_data f)"
    then have "str_in ''status: pending'' (read_text f)"
      unfolding read_text_def by (intro str_in_universal_newlines) simp_all
    then show "str_in ''status: in_progress'' (f_data (mark_in_progress (now E) f))"
      by (simp add: mark_in_progress_def replace_contains)
  qed
  have retry: "name \<in> set (get_pending_files (cycle E s))"
    if "map_of (needs_action_folder (cycle E s)) name = Some f"
  proof -
    from assms(2) obtain f0 where f0: "(name, f0) \<in> set (needs_action_folder s)" "is_md_file (name, f0)"
      by (auto simp: get_pending_files_def md_files_set)
    then have "f0 = f" using assms(1,4) by simp
    moreover have "(name, f) \<in> set (needs_action_folder (cycle E s))"
      using that by (rule map_of_SomeD)
    ultimately show ?thesis using f0(2) by (force simp: get_pending_files_def md_files_set)
  qed
  have later: "\<forall>s'. reachable (cycle E s) s' \<longrightarrow> processed_files (cycle E s) \<subseteq> processed_files s'"
    using processed_reachable by blast
  show ?thesis using r g k retry later by (simp add: process_with_claude_fst)
qed

theorem pending_record_processing_witness:
  "map_of (needs_action_folder (cycle sample_env sample_vault)) ''FILE_a.md''
       = Some (regular ''status: in_progress'' (dt_posix sample_time))
   \<and> action_path sample_vault ''FILE_a.md'' \<in> processed_files (cycle sample_env sample_vault)
   \<and> processed_files sample_vault \<subseteq> processed_files (cycle sample_env sample_vault)"
proof -
  have h1: "distinct (map fst (needs_action_folder sample_vault))"
    by (simp add: sample_vault_def)
  have h2: "''FILE_a.md'' \<in> set (get_pending_files sample_vault)"
    unfolding get_pending_files_def
    by (rule md_files_mem [of _ "regular ''status: pending'' 10"])
       (simp_all add: sample_vault_def is_md_file_def path_suffix_def regular_def)
  have h3: "action_path sample_vault ''FILE_a.md'' \<notin> processed_files sample_vault"
    by (simp add: sample_vault_def)
  have h4: "map_of (needs_action_folder sample_vault) ''FILE_a.md''
              = Some (regular ''status: pending'' 10)"
    by (simp add: sample_vault_def)
  have ok: "fst (process_with_claude sample_env ''FILE_a.md'' sample_vault)"
    by (simp add: process_with_claude_fst can_process_def write_text_def sample_vault_def
          sample_env_def regular_def read_text_def)
  have mk: "mark_in_progress (now sample_env) (regular ''status: pending'' 10)
              = regular ''status: in_progress'' (dt_posix sample_time)"
    by (simp add: mark_in_progress_def regular_def sample_env_def read_text_def)
  from pending_record_processing [OF h1 h2 h3 h4, of sample_env] ok mk show ?thesis by simp
qed

end
